theory Spec2Isabelle
  imports Main "HOL-Library.Multiset"
begin

section \<open>Label sets and their comparison\<close>

text \<open>
  A label is a (name, value) pair of Go strings; a label set is a slice of labels.
  Go compares strings bytewise, so \<open>str_less\<close> is the lexicographic order on the bytes.
  \<open>labels_Compare\<close> follows \<^verbatim>\<open>labels.Compare\<close> of the Prometheus library that the
  source imports: the first differing name or value decides, and when one label set is
  a prefix of the other the difference of the lengths is returned.
\<close>

type_synonym Label = "string \<times> string"
type_synonym Labels = "Label list"

fun str_less :: "string \<Rightarrow> string \<Rightarrow> bool" where
  "str_less [] [] = False"
| "str_less [] (y # ys) = True"
| "str_less (x # xs) [] = False"
| "str_less (x # xs) (y # ys) =
     ((of_char x :: nat) < of_char y \<or> (x = y \<and> str_less xs ys))"

fun labels_Compare :: "Labels \<Rightarrow> Labels \<Rightarrow> int" where
  "labels_Compare ((an, av) # as) ((bn, bv) # bs) =
     (if an \<noteq> bn then (if str_less an bn then - 1 else 1)
      else if av \<noteq> bv then (if str_less av bv then - 1 else 1)
      else labels_Compare as bs)"
| "labels_Compare as bs = int (length as) - int (length bs)"

section \<open>The series sets the tournament tree merges\<close>

text \<open>
  \<^verbatim>\<open>mockSeriesSet\<close> is the series set of the repository's tests: a slice of label sets
  and a cursor \<open>i\<close> that starts at 0 and is only ever incremented, hence a \<open>nat\<close>.
  \<open>At\<close> yields the nil label set (the empty list) once the cursor is past the end.
\<close>

record mockSeriesSet =
  series :: "Labels list"
  i :: nat

definition mock_Next :: "mockSeriesSet \<Rightarrow> mockSeriesSet \<times> bool" where
  "mock_Next m = (m\<lparr>i := i m + 1\<rparr>, i m + 1 < length (series m))"

definition mock_At :: "mockSeriesSet \<Rightarrow> Labels" where
  "mock_At m = (if i m \<ge> length (series m) then [] else series m ! i m)"

definition mock_Err :: "mockSeriesSet \<Rightarrow> string option" where
  "mock_Err m = None"

section \<open>The tournament tree\<close>

text \<open>
  The leaves and the auxiliary nodes hold \<^emph>\<open>references\<close> to series sets: advancing a
  leaf is seen through every auxiliary node that borrowed it. A reference is an address
  into the memory \<open>mem\<close>; the nil interface value, which the source names \<open>infinity\<close>
  (\<^verbatim>\<open>var infinity storepb.SeriesSet\<close> is never assigned), is \<open>None\<close>.
  An auxiliary slot is a pointer to a \<open>treeAuxNode\<close>, nil being \<open>None\<close>.
\<close>

type_synonym SeriesSet = "nat option"

abbreviation infinity :: SeriesSet where
  "infinity \<equiv> None"

record treeAuxNode =
  ss :: SeriesSet
  previousAuxIndex :: int
  previousNodeIndex :: int

record ProxyTournamentTree =
  mem :: "nat \<Rightarrow> mockSeriesSet"
  nodes :: "SeriesSet list"
  auxiliaryNodes :: "treeAuxNode option list"
  lastChangedNodeIndex :: int

text \<open>
  Go panics are values: the kind of panic together with the state of the tree at the
  moment it is raised.
\<close>

datatype panic = FixBeforePop | IndexOutOfRange | NilPointerDereference

type_synonym 'a result = "(panic \<times> ProxyTournamentTree) + 'a"

definition inRange :: "'a list \<Rightarrow> int \<Rightarrow> bool" where
  "inRange xs k = (0 \<le> k \<and> k < int (length xs))"

definition setAux :: "ProxyTournamentTree \<Rightarrow> int \<Rightarrow> treeAuxNode \<Rightarrow> ProxyTournamentTree result" where
  "setAux t k n =
     (if inRange (auxiliaryNodes t) k
      then Inr (t\<lparr>auxiliaryNodes := (auxiliaryNodes t)[nat k := Some n]\<rparr>)
      else Inl (IndexOutOfRange, t))"

definition At :: "ProxyTournamentTree \<Rightarrow> nat \<Rightarrow> Labels" where
  "At t r = mock_At (mem t r)"

text \<open>The loop of \<open>NewProxyTournamentTree\<close> that counts the auxiliary nodes.\<close>

function auxCount :: "nat \<Rightarrow> nat \<Rightarrow> nat" where
  "auxCount n auxNodes =
     (if n > 1
      then (if n mod 2 = 0 then auxCount (n div 2) (auxNodes + n div 2)
            else auxCount (1 + n div 2) (auxNodes + (1 + n div 2)))
      else auxNodes)"
  by pat_completeness auto
termination
  by (relation "measure fst") (auto, presburger)

definition nextLevelNodeCount :: "nat \<Rightarrow> nat" where
  "nextLevelNodeCount n =
     (if n mod 2 = 0 then n div 2 else if n = 1 then 0 else 1 + n div 2)"

subsection \<open>initialFix\<close>

text \<open>The node written for the pair of leaves \<open>(left, left + 1)\<close> by the first loop.\<close>

definition leafPairNode :: "ProxyTournamentTree \<Rightarrow> nat \<Rightarrow> treeAuxNode" where
  "leafPairNode t left =
     (let right = left + 1 in
      case (nodes t ! left, nodes t ! right) of
        (Some l, None) \<Rightarrow>
          \<lparr>ss = Some l, previousAuxIndex = - 1, previousNodeIndex = int left\<rparr>
      | (None, Some r) \<Rightarrow>
          \<lparr>ss = Some r, previousAuxIndex = - 1, previousNodeIndex = int left\<rparr>
      | (None, None) \<Rightarrow>
          \<lparr>ss = infinity, previousAuxIndex = 0, previousNodeIndex = 0\<rparr>
      | (Some l, Some r) \<Rightarrow>
          if labels_Compare (At t l) (At t r) < 0 then
            \<lparr>ss = Some l, previousAuxIndex = - 1, previousNodeIndex = int left\<rparr>
          else
            \<lparr>ss = Some r, previousAuxIndex = - 1, previousNodeIndex = int right\<rparr>)"

function initialFix_leaves :: "ProxyTournamentTree \<Rightarrow> nat \<Rightarrow> int \<Rightarrow> (ProxyTournamentTree \<times> int) result" where
  "initialFix_leaves t left lastLoserIndex =
     (if left < length (nodes t) then
        (if \<not> left + 1 < length (nodes t) then Inl (IndexOutOfRange, t)
         else case setAux t (int (left div 2)) (leafPairNode t left) of
                Inl e \<Rightarrow> Inl e
              | Inr t' \<Rightarrow> initialFix_leaves t' (left + 2) (int (left div 2)))
      else Inr (t, lastLoserIndex))"
  by pat_completeness auto
termination
proof (relation "measure (\<lambda>(t, left, l). length (nodes t) - left)")
  show "wf (measure (\<lambda>(t, left, l). length (nodes t) - left))"
    by simp
next
  fix t :: ProxyTournamentTree and left :: nat and lastLoserIndex :: int and t'
  assume "left < length (nodes t)" and "\<not> \<not> left + 1 < length (nodes t)"
    and "setAux t (int (left div 2)) (leafPairNode t left) = Inr t'"
  then show "((t', left + 2, int (left div 2)), (t, left, lastLoserIndex))
      \<in> measure (\<lambda>(t, left, l). length (nodes t) - left)"
    by (auto simp: setAux_def split: if_splits)
qed


text \<open>
  The upper levels read auxiliary slots. \<open>nilAuxNode\<close> is the closure of the same
  name (\<open>None\<close> when the index is out of range, which panics in Go), \<open>auxSs\<close> is the
  expression \<^verbatim>\<open>t.auxiliaryNodes[k].ss\<close>.
\<close>

definition nilAuxNode :: "ProxyTournamentTree \<Rightarrow> int \<Rightarrow> bool option" where
  "nilAuxNode t k =
     (if inRange (auxiliaryNodes t) k
      then Some (case auxiliaryNodes t ! nat k of None \<Rightarrow> True | Some n \<Rightarrow> ss n = infinity)
      else None)"

definition auxSs :: "ProxyTournamentTree \<Rightarrow> int \<Rightarrow> panic + SeriesSet" where
  "auxSs t k =
     (if \<not> inRange (auxiliaryNodes t) k then Inl IndexOutOfRange
      else case auxiliaryNodes t ! nat k of
             None \<Rightarrow> Inl NilPointerDereference
           | Some n \<Rightarrow> Inr (ss n))"

definition takeAux :: "ProxyTournamentTree \<Rightarrow> int \<Rightarrow> panic + treeAuxNode" where
  "takeAux t k =
     (case auxSs t k of
        Inl p \<Rightarrow> Inl p
      | Inr s \<Rightarrow> Inr \<lparr>ss = s, previousAuxIndex = k, previousNodeIndex = - 1\<rparr>)"

definition auxLabels :: "ProxyTournamentTree \<Rightarrow> int \<Rightarrow> panic + Labels" where
  "auxLabels t k =
     (case auxSs t k of
        Inl p \<Rightarrow> Inl p
      | Inr None \<Rightarrow> Inl NilPointerDereference
      | Inr (Some r) \<Rightarrow> Inr (At t r))"

definition auxPairNode :: "ProxyTournamentTree \<Rightarrow> int \<Rightarrow> int \<Rightarrow> int \<Rightarrow> panic + treeAuxNode" where
  "auxPairNode t from leftIdx rightIdx =
     (if rightIdx \<ge> from then takeAux t leftIdx
      else (case nilAuxNode t rightIdx of
        None \<Rightarrow> Inl IndexOutOfRange
      | Some nr \<Rightarrow>
          (if nr then takeAux t leftIdx
           else (case nilAuxNode t leftIdx of
             None \<Rightarrow> Inl IndexOutOfRange
           | Some nl \<Rightarrow>
               (if nl \<and> \<not> nr then takeAux t rightIdx
                else (case auxLabels t leftIdx of
                  Inl p \<Rightarrow> Inl p
                | Inr leftLbls \<Rightarrow>
                    (case auxLabels t rightIdx of
                       Inl p \<Rightarrow> Inl p
                     | Inr rightLbls \<Rightarrow>
                         (if labels_Compare leftLbls rightLbls < 0 then takeAux t leftIdx
                          else takeAux t rightIdx))))))))"

function initialFix_level :: "ProxyTournamentTree \<Rightarrow> int \<Rightarrow> int \<Rightarrow> int \<Rightarrow> int \<Rightarrow> ProxyTournamentTree result" where
  "initialFix_level t from until loserIdx previousLevelIdx =
     (if loserIdx \<le> until then
        (let leftIdx = (if previousLevelIdx mod 2 = 0 then previousLevelIdx else previousLevelIdx - 1);
             rightIdx = (if previousLevelIdx mod 2 = 0 then previousLevelIdx + 1 else previousLevelIdx)
         in case auxPairNode t from leftIdx rightIdx of
              Inl p \<Rightarrow> Inl (p, t)
            | Inr n \<Rightarrow>
                (case setAux t loserIdx n of
                   Inl e \<Rightarrow> Inl e
                 | Inr t' \<Rightarrow> initialFix_level t' from until (loserIdx + 1) (previousLevelIdx + 2)))
      else Inr t)"
  by pat_completeness auto
termination
  by (relation "measure (\<lambda>(t, from, until, loserIdx, p). nat (until + 1 - loserIdx))") auto

lemma nextLevelNodeCount_less: "n \<ge> 1 \<Longrightarrow> nextLevelNodeCount n < n"
  unfolding nextLevelNodeCount_def by (auto, presburger)

function initialFix_levels :: "ProxyTournamentTree \<Rightarrow> nat \<Rightarrow> int \<Rightarrow> int \<Rightarrow> ProxyTournamentTree result" where
  "initialFix_levels t nodesInLevel from lastLoserIndex =
     (if nodesInLevel \<ge> 1 then
        (case initialFix_level t (lastLoserIndex + 1) (lastLoserIndex + int nodesInLevel)
                (lastLoserIndex + 1) from of
           Inl e \<Rightarrow> Inl e
         | Inr t' \<Rightarrow>
             initialFix_levels t' (nextLevelNodeCount nodesInLevel) (lastLoserIndex + 1)
               (lastLoserIndex + int nodesInLevel))
      else Inr t)"
  by pat_completeness auto
termination
  by (relation "measure (\<lambda>(t, nodesInLevel, from, l). nodesInLevel)")
     (auto simp: nextLevelNodeCount_less)

definition initialFix :: "ProxyTournamentTree \<Rightarrow> ProxyTournamentTree result" where
  "initialFix t =
     (case initialFix_leaves t 0 (- 1) of
        Inl e \<Rightarrow> Inl e
      | Inr (t', lastLoserIndex) \<Rightarrow>
          if lastLoserIndex < int (length (auxiliaryNodes t')) then
            initialFix_levels t'
              (nextLevelNodeCount (nextLevelNodeCount (length (nodes t')))) 0 lastLoserIndex
          else Inr t')"

definition NewProxyTournamentTree :: "(nat \<Rightarrow> mockSeriesSet) \<Rightarrow> SeriesSet list \<Rightarrow> ProxyTournamentTree result" where
  "NewProxyTournamentTree m nodes0 =
     (let nodes1 = (if length nodes0 mod 2 \<noteq> 0 then nodes0 @ [infinity] else nodes0)
      in initialFix
           \<lparr>mem = m, nodes = nodes1,
            auxiliaryNodes = replicate (auxCount (length nodes1) 0) None,
            lastChangedNodeIndex = - 1\<rparr>)"

subsection \<open>Fix\<close>

definition nilNode :: "ProxyTournamentTree \<Rightarrow> int \<Rightarrow> bool \<Rightarrow> bool" where
  "nilNode t k lookInNodes =
     (if lookInNodes then
        (if k < 0 \<or> k \<ge> int (length (nodes t)) then True
         else nodes t ! nat k = infinity)
      else
        (if k < 0 \<or> k \<ge> int (length (auxiliaryNodes t)) then True
         else case auxiliaryNodes t ! nat k of None \<Rightarrow> True | Some n \<Rightarrow> ss n = infinity))"

definition peekNode :: "ProxyTournamentTree \<Rightarrow> int \<Rightarrow> bool \<Rightarrow> SeriesSet" where
  "peekNode t k lookInNodes =
     (if lookInNodes then
        (if k < 0 \<or> k \<ge> int (length (nodes t)) then infinity
         else nodes t ! nat k)
      else
        (if k < 0 \<or> k \<ge> int (length (auxiliaryNodes t)) then infinity
         else case auxiliaryNodes t ! nat k of None \<Rightarrow> infinity | Some n \<Rightarrow> ss n))"

definition winnerNode :: "ProxyTournamentTree \<Rightarrow> int \<Rightarrow> bool \<Rightarrow> treeAuxNode" where
  "winnerNode t k lookInNodes =
     (if lookInNodes
      then \<lparr>ss = peekNode t k lookInNodes, previousAuxIndex = - 1, previousNodeIndex = k\<rparr>
      else \<lparr>ss = peekNode t k lookInNodes, previousAuxIndex = k, previousNodeIndex = - 1\<rparr>)"

definition fixNode :: "ProxyTournamentTree \<Rightarrow> int \<Rightarrow> int \<Rightarrow> int \<Rightarrow> bool \<Rightarrow> panic + treeAuxNode" where
  "fixNode t from leftIdx rightIdx lookInNodes =
     (if rightIdx \<ge> from \<or> nilNode t rightIdx lookInNodes then
        Inr (winnerNode t leftIdx lookInNodes)
      else if \<not> nilNode t rightIdx lookInNodes \<and> nilNode t leftIdx lookInNodes then
        Inr (winnerNode t rightIdx lookInNodes)
      else if nilNode t rightIdx lookInNodes \<and> nilNode t leftIdx lookInNodes then
        Inr \<lparr>ss = infinity, previousAuxIndex = 0, previousNodeIndex = 0\<rparr>
      else
        (case (peekNode t leftIdx lookInNodes, peekNode t rightIdx lookInNodes) of
           (Some left, Some right) \<Rightarrow>
             if labels_Compare (At t left) (At t right) < 0
             then Inr (winnerNode t leftIdx lookInNodes)
             else Inr (winnerNode t rightIdx lookInNodes)
         | _ \<Rightarrow> Inl NilPointerDereference))"

function Fix_loop :: "ProxyTournamentTree \<Rightarrow> nat \<Rightarrow> int \<Rightarrow> int \<Rightarrow> int \<Rightarrow> int \<Rightarrow> int \<Rightarrow> bool \<Rightarrow> ProxyTournamentTree result" where
  "Fix_loop t nodesInLevel from until auxNodeOffset leftIdx rightIdx lookInNodes =
     (if nodesInLevel > 0 then
        (let loserIdx = from + auxNodeOffset in
         case fixNode t from leftIdx rightIdx lookInNodes of
           Inl p \<Rightarrow> Inl (p, t)
         | Inr n \<Rightarrow>
             (case setAux t loserIdx n of
                Inl e \<Rightarrow> Inl e
              | Inr t' \<Rightarrow>
                  Fix_loop t' (nextLevelNodeCount nodesInLevel)
                    (until + 1) (until + int (nextLevelNodeCount nodesInLevel))
                    (auxNodeOffset div 2)
                    (if loserIdx mod 2 = 0 then loserIdx else loserIdx - 1)
                    (if loserIdx mod 2 = 0 then loserIdx + 1 else loserIdx)
                    False))
      else Inr t)"
  by pat_completeness auto
termination
  by (relation "measure (\<lambda>(t, nodesInLevel, r). nodesInLevel)")
     (auto simp: nextLevelNodeCount_less)

definition Fix :: "ProxyTournamentTree \<Rightarrow> ProxyTournamentTree result" where
  "Fix t =
     (let lc = lastChangedNodeIndex t in
      if lc = - 1 then Inl (FixBeforePop, t)
      else if \<not> inRange (nodes t) lc then Inl (IndexOutOfRange, t)
      else case nodes t ! nat lc of
        None \<Rightarrow> Inl (NilPointerDereference, t)
      | Some r \<Rightarrow>
          (let (m', nextSeries) = mock_Next (mem t r);
               t1 = t\<lparr>mem := (mem t)(r := m')\<rparr>;
               t2 = (if \<not> nextSeries then t1\<lparr>nodes := (nodes t1)[nat lc := infinity]\<rparr> else t1);
               nodesInLevel = nextLevelNodeCount (length (nodes t2))
           in Fix_loop t2 nodesInLevel 0 (int nodesInLevel - 1) (lc div 2)
                (if lc mod 2 = 0 then lc else lc - 1)
                (if lc mod 2 = 0 then lc + 1 else lc)
                True))"

subsection \<open>Pop\<close>

text \<open>
  The walk from the root down the chain of back-references. The Go loop has no exit when
  both back-references of the current node are \<open>-1\<close>: it spins without changing
  anything. Not returning is the value \<open>None\<close>.
\<close>

partial_function (option) Pop_walk :: "ProxyTournamentTree \<Rightarrow> int \<Rightarrow> treeAuxNode \<Rightarrow> ProxyTournamentTree result option" where
  "Pop_walk t curNodeIdx curNode =
     (if previousAuxIndex curNode \<noteq> - 1 then
        (if \<not> inRange (auxiliaryNodes t) (previousAuxIndex curNode) then
           Some (Inl (IndexOutOfRange, t))
         else if \<not> inRange (auxiliaryNodes t) curNodeIdx then
           Some (Inl (IndexOutOfRange, t))
         else
           (case auxiliaryNodes t ! nat (previousAuxIndex curNode) of
              None \<Rightarrow>
                Some (Inl (NilPointerDereference,
                  t\<lparr>auxiliaryNodes := (auxiliaryNodes t)[nat curNodeIdx := None]\<rparr>))
            | Some next \<Rightarrow>
                Pop_walk (t\<lparr>auxiliaryNodes := (auxiliaryNodes t)[nat curNodeIdx := None]\<rparr>)
                  (previousAuxIndex curNode) next))
      else if previousNodeIndex curNode \<noteq> - 1 then
        (if \<not> inRange (auxiliaryNodes t) curNodeIdx then Some (Inl (IndexOutOfRange, t))
         else Some (Inr (t\<lparr>auxiliaryNodes := (auxiliaryNodes t)[nat curNodeIdx := None],
                          lastChangedNodeIndex := previousNodeIndex curNode\<rparr>)))
      else Pop_walk t curNodeIdx curNode)"

declare Pop_walk.simps [code]

definition Pop :: "ProxyTournamentTree \<Rightarrow> (SeriesSet \<times> ProxyTournamentTree) result option" where
  "Pop t =
     (if length (auxiliaryNodes t) = 0 then Some (Inl (IndexOutOfRange, t))
      else case auxiliaryNodes t ! (length (auxiliaryNodes t) - 1) of
        None \<Rightarrow> Some (Inr (None, t))
      | Some loserNode \<Rightarrow>
          if ss loserNode \<noteq> infinity then
            (case Pop_walk t (int (length (auxiliaryNodes t)) - 1) loserNode of
               None \<Rightarrow> None
             | Some (Inl e) \<Rightarrow> Some (Inl e)
             | Some (Inr t') \<Rightarrow> Some (Inr (ss loserNode, t')))
          else Some (Inr (None, t)))"


section \<open>The heap merger\<close>

text \<open>
  A response either carries a series (labels and chunks) or it does not (a warning or a
  hint): \<^verbatim>\<open>GetSeries()\<close> is nil exactly for the second kind. The chunk type is left
  open. A \<open>respSet\<close> is a slice of responses with a cursor; its \<open>At\<close> indexes the slice
  and panics (\<open>None\<close>) past the end.
\<close>

datatype 'c SeriesResponse = SeriesR Labels "'c list" | WarningR string

fun GetSeries :: "'c SeriesResponse \<Rightarrow> (Labels \<times> 'c list) option" where
  "GetSeries (SeriesR l cs) = Some (l, cs)"
| "GetSeries (WarningR w) = None"

record 'c respSet =
  rs_responses :: "'c SeriesResponse list"
  rs_i :: nat

definition rs_Next :: "'c respSet \<Rightarrow> 'c respSet \<times> bool" where
  "rs_Next s = (s\<lparr>rs_i := rs_i s + 1\<rparr>, rs_i s + 1 < length (rs_responses s))"

definition rs_At :: "'c respSet \<Rightarrow> 'c SeriesResponse option" where
  "rs_At s = (if rs_i s < length (rs_responses s) then Some (rs_responses s ! rs_i s) else None)"

definition rs_Err :: "'c respSet \<Rightarrow> string option" where
  "rs_Err s = None"

text \<open>
  The heap is a slice of nodes, each pointing to its own \<open>respSet\<close>; the nodes are
  modelled by the sets they point to. \<open>None\<close> is a Go panic.
\<close>

type_synonym 'c ProxyResponseHeap = "'c respSet list"

definition Less :: "'c ProxyResponseHeap \<Rightarrow> nat \<Rightarrow> nat \<Rightarrow> bool option" where
  "Less h a b =
     (if a < length h \<and> b < length h then
        (case rs_At (h ! a) of
           None \<Rightarrow> None
         | Some iResp \<Rightarrow>
             (case rs_At (h ! b) of
                None \<Rightarrow> None
              | Some jResp \<Rightarrow>
                  (case (GetSeries iResp, GetSeries jResp) of
                     (Some (iLbls, _), Some (jLbls, _)) \<Rightarrow> Some (labels_Compare iLbls jLbls < 0)
                   | (None, Some _) \<Rightarrow> Some True
                   | (Some _, None) \<Rightarrow> Some False
                   | (None, None) \<Rightarrow> Some False)))
      else None)"

definition Swap :: "'a list \<Rightarrow> nat \<Rightarrow> nat \<Rightarrow> 'a list" where
  "Swap h a b = h[a := h ! b, b := h ! a]"

definition Empty :: "'c ProxyResponseHeap \<Rightarrow> bool" where
  "Empty h = (length h = 0)"

subsection \<open>Go's container/heap\<close>

text \<open>
  \<open>down\<close>, \<open>up\<close>, \<open>Init\<close>, \<open>Fix\<close> and \<open>Remove\<close> of the standard library package
  \<^verbatim>\<open>container/heap\<close>, which the merger calls, over the \<open>Less\<close> and \<open>Swap\<close> above.
  Indices are never negative there, except for the parent \<open>(j - 1) / 2\<close> of the root,
  which Go's truncating division makes 0, as the subtraction on \<open>nat\<close> does.
\<close>

function down_loop :: "'c ProxyResponseHeap \<Rightarrow> nat \<Rightarrow> nat \<Rightarrow> ('c ProxyResponseHeap \<times> nat) option" where
  "down_loop h k n =
     (let j1 = 2 * k + 1 in
      if j1 \<ge> n then Some (h, k)
      else case (if j1 + 1 < n then Less h (j1 + 1) j1 else Some False) of
        None \<Rightarrow> None
      | Some b \<Rightarrow>
          (let j = (if b then j1 + 1 else j1) in
           case Less h j k of
             None \<Rightarrow> None
           | Some lt \<Rightarrow> if \<not> lt then Some (h, k) else down_loop (Swap h k j) j n))"
  by pat_completeness auto
termination
  by (relation "measure (\<lambda>(h, k, n). n - k)") (auto split: if_splits)

definition down :: "'c ProxyResponseHeap \<Rightarrow> nat \<Rightarrow> nat \<Rightarrow> ('c ProxyResponseHeap \<times> bool) option" where
  "down h i0 n = (case down_loop h i0 n of None \<Rightarrow> None | Some (h', k) \<Rightarrow> Some (h', k > i0))"

function up :: "'c ProxyResponseHeap \<Rightarrow> nat \<Rightarrow> 'c ProxyResponseHeap option" where
  "up h j =
     (let k = (j - 1) div 2 in
      if k = j then Some h
      else case Less h j k of
        None \<Rightarrow> None
      | Some lt \<Rightarrow> if \<not> lt then Some h else up (Swap h k j) k)"
  by pat_completeness auto
termination
  by (relation "measure snd") auto

fun Init_loop :: "'c ProxyResponseHeap \<Rightarrow> nat \<Rightarrow> nat \<Rightarrow> 'c ProxyResponseHeap option" where
  "Init_loop h 0 n = Some h"
| "Init_loop h (Suc k) n =
     (case down h k n of None \<Rightarrow> None | Some (h', _) \<Rightarrow> Init_loop h' k n)"

definition heap_Init :: "'c ProxyResponseHeap \<Rightarrow> 'c ProxyResponseHeap option" where
  "heap_Init h = Init_loop h (length h div 2) (length h)"

definition heap_Fix :: "'c ProxyResponseHeap \<Rightarrow> nat \<Rightarrow> 'c ProxyResponseHeap option" where
  "heap_Fix h k =
     (case down h k (length h) of
        None \<Rightarrow> None
      | Some (h', moved) \<Rightarrow> if \<not> moved then up h' k else Some h')"

definition heap_Remove :: "'c ProxyResponseHeap \<Rightarrow> nat \<Rightarrow> 'c ProxyResponseHeap option" where
  "heap_Remove h k =
     (if length h = 0 \<or> k \<ge> length h then None
      else let n = length h - 1 in
        if n \<noteq> k then
          (case down (Swap h k n) k n of
             None \<Rightarrow> None
           | Some (h', moved) \<Rightarrow>
               if \<not> moved then (case up h' k of None \<Rightarrow> None | Some h'' \<Rightarrow> Some (butlast h''))
               else Some (butlast h'))
        else Some (butlast h))"

subsection \<open>ProxyResponseHeap\<close>

definition NewProxyResponseHeap :: "'c respSet list \<Rightarrow> 'c ProxyResponseHeap option" where
  "NewProxyResponseHeap seriesSets = heap_Init seriesSets"

text \<open>
  \<open>Next\<close> and \<open>Err\<close> have pointer receivers; they return the heap as they leave it.
  \<open>Err\<close> is generic in what the children's own \<open>Err\<close> method answers.
\<close>

definition heap_Next :: "'c ProxyResponseHeap \<Rightarrow> bool \<times> 'c ProxyResponseHeap" where
  "heap_Next h = (\<not> Empty h, h)"

definition heap_Err :: "('c respSet \<Rightarrow> string option) \<Rightarrow> 'c ProxyResponseHeap \<Rightarrow> string option \<times> 'c ProxyResponseHeap" where
  "heap_Err childErr h = (None, h)"

definition heap_At :: "'c ProxyResponseHeap \<Rightarrow> ('c SeriesResponse \<times> 'c ProxyResponseHeap) option" where
  "heap_At h =
     (if length h = 0 then None
      else case rs_At (h ! 0) of
        None \<Rightarrow> None
      | Some atResp \<Rightarrow>
          (let (m', more) = rs_Next (h ! 0); h1 = h[0 := m'] in
           case (if more then heap_Fix h1 0 else heap_Remove h1 0) of
             None \<Rightarrow> None
           | Some h2 \<Rightarrow> Some (atResp, h2)))"


subsection \<open>The heap operations permute the heap\<close>

lemma Less_SomeD: "Less h a b = Some x \<Longrightarrow> a < length h \<and> b < length h"
  by (auto simp: Less_def split: if_splits)

lemma mset_Swap: "a < length h \<Longrightarrow> b < length h \<Longrightarrow> mset (Swap h a b) = mset h"
  unfolding Swap_def by (metis mset_swap)

declare down_loop.simps [simp del] up.simps [simp del]

lemma mset_down_loop: "down_loop h k n = Some (h', k') \<Longrightarrow> mset h' = mset h"
proof (induction "n - k" arbitrary: h k rule: less_induct)
  case less
  have step: "\<And>j. k < j \<Longrightarrow> j < n \<Longrightarrow> Less h j k = Some True \<Longrightarrow>
      down_loop (Swap h k j) j n = Some (h', k') \<Longrightarrow> mset h' = mset h"
  proof -
    fix j assume j: "k < j" "j < n" and lt: "Less h j k = Some True"
      and rec: "down_loop (Swap h k j) j n = Some (h', k')"
    have "n - j < n - k" using j by arith
    from less.hyps[OF this rec] have "mset h' = mset (Swap h k j)" .
    then show "mset h' = mset h" using Less_SomeD[OF lt] by (simp add: mset_Swap)
  qed
  from less.prems step[of "Suc (2 * k)"] step[of "Suc (Suc (2 * k))"] show ?case
    apply (subst (asm) down_loop.simps)
    apply (auto simp: Let_def split: if_splits option.splits)
    done
qed

lemma mset_up: "up h j = Some h' \<Longrightarrow> mset h' = mset h"
proof (induction j arbitrary: h rule: less_induct)
  case (less j)
  have step: "\<And>k. k < j \<Longrightarrow> Less h j k = Some True \<Longrightarrow>
      up (Swap h k j) k = Some h' \<Longrightarrow> mset h' = mset h"
  proof -
    fix k assume k: "k < j" and lt: "Less h j k = Some True"
      and rec: "up (Swap h k j) k = Some h'"
    from less.IH[OF k rec] have "mset h' = mset (Swap h k j)" .
    then show "mset h' = mset h" using Less_SomeD[OF lt] by (simp add: mset_Swap)
  qed
  have lt: "(j - 1) div 2 \<noteq> j \<Longrightarrow> (j - 1) div 2 < j" by arith
  from less.prems step[of "(j - 1) div 2"] lt show ?case
    apply (subst (asm) up.simps)
    apply (auto simp: Let_def split: if_splits option.splits)
    done
qed


text \<open>What is left to emit: the termination measure of every loop that drains the heap.\<close>

definition remaining :: "'c ProxyResponseHeap \<Rightarrow> nat" where
  "remaining h = sum_list (map (\<lambda>s. length (rs_responses s) - rs_i s) h) + length h"

lemma remaining_mset: "mset h = mset h' \<Longrightarrow> remaining h = remaining h'"
proof -
  assume eq: "mset h = mset h'"
  have "\<And>f :: 'a respSet \<Rightarrow> nat. sum_list (map f h) = sum_list (map f h')"
    by (metis eq mset_map sum_mset_sum_list)
  moreover have "length h = length h'" using eq by (rule mset_eq_length)
  ultimately show ?thesis by (simp add: remaining_def)
qed

lemma mset_down: "down h k n = Some (h', b) \<Longrightarrow> mset h' = mset h"
  by (auto simp: down_def split: option.splits dest: mset_down_loop)

lemma mset_heap_Fix: "heap_Fix h k = Some h' \<Longrightarrow> mset h' = mset h"
  by (auto simp: heap_Fix_def split: option.splits if_splits dest!: mset_down mset_up)

lemma remaining_butlast: "h \<noteq> [] \<Longrightarrow> remaining (butlast h) < remaining h"
  by (induction h rule: rev_induct) (auto simp: remaining_def)

lemma remaining_heap_Remove: "heap_Remove h k = Some h' \<Longrightarrow> remaining h' < remaining h"
proof -
  assume a: "heap_Remove h k = Some h'"
  then have ne: "h \<noteq> []" and k: "k < length h"
    by (auto simp: heap_Remove_def split: if_splits)
  from a obtain g where g: "h' = butlast g" "mset g = mset h"
    using k ne
    by (auto simp: heap_Remove_def Let_def mset_Swap split: if_splits option.splits
             dest!: mset_down mset_up)
  then have "g \<noteq> []" using ne by auto
  then show ?thesis using g remaining_butlast[of g] remaining_mset[of g h] by simp
qed

lemma remaining_heap_At: "heap_At h = Some (r, h') \<Longrightarrow> remaining h' < remaining h"
proof -
  assume a: "heap_At h = Some (r, h')"
  then obtain x xs where h: "h = x # xs" by (cases h) (auto simp: heap_At_def)
  have i: "rs_i x < length (rs_responses x)"
    using a h by (auto simp: heap_At_def rs_At_def split: if_splits option.splits)
  show ?thesis
  proof (cases "rs_i x + 1 < length (rs_responses x)")
    case True
    then have "heap_Fix ((x\<lparr>rs_i := rs_i x + 1\<rparr>) # xs) 0 = Some h'"
      using a h by (auto simp: heap_At_def rs_Next_def split: option.splits if_splits)
    from mset_heap_Fix[OF this] have "remaining h' = remaining ((x\<lparr>rs_i := rs_i x + 1\<rparr>) # xs)"
      by (rule remaining_mset)
    then show ?thesis using h i by (simp add: remaining_def)
  next
    case False
    then have "heap_Remove ((x\<lparr>rs_i := rs_i x + 1\<rparr>) # xs) 0 = Some h'"
      using a h by (auto simp: heap_At_def rs_Next_def split: option.splits if_splits)
    from remaining_heap_Remove[OF this] show ?thesis using h by (simp add: remaining_def)
  qed
qed


section \<open>The deduplicating wrapper\<close>

text \<open>
  \<open>dh\<close> is the field \<^verbatim>\<open>h\<close> of the source. \<open>At\<close> hashes chunks with \<^verbatim>\<open>chk.Hash()\<close>,
  whose code is outside the files at hand: \<open>hash\<close> is a parameter, and so is the zero
  value \<open>zero\<close> of the chunk type. The Go map \<^verbatim>\<open>chunkDedupMap\<close> is an association list
  in insertion order; Go enumerates a map in an unspecified order, which the parameter
  \<open>iter\<close> stands for.
\<close>

record 'c dedupResponseHeap =
  dh :: "'c ProxyResponseHeap"
  responses :: "'c SeriesResponse list"
  previousResponse :: "'c SeriesResponse option"
  previousNext :: bool

definition NewDedupResponseHeap :: "'c ProxyResponseHeap \<Rightarrow> 'c dedupResponseHeap" where
  "NewDedupResponseHeap h =
     \<lparr>dh = h, responses = [], previousResponse = None, previousNext = fst (heap_Next h)\<rparr>"

definition insertChunk :: "('c \<Rightarrow> string) \<Rightarrow> 'c \<Rightarrow> (string \<times> 'c) list \<Rightarrow> (string \<times> 'c) list" where
  "insertChunk hash chk m =
     (case map_of m (hash chk) of None \<Rightarrow> m @ [(hash chk, chk)] | Some _ \<Rightarrow> m)"

fun chunkDedupMap :: "('c \<Rightarrow> string) \<Rightarrow> 'c SeriesResponse list \<Rightarrow> (string \<times> 'c) list \<Rightarrow> (string \<times> 'c) list option" where
  "chunkDedupMap hash [] m = Some m"
| "chunkDedupMap hash (resp # rest) m =
     (case GetSeries resp of
        None \<Rightarrow> None
      | Some (_, chunks) \<Rightarrow> chunkDedupMap hash rest (fold (insertChunk hash) chunks m))"

definition dedup_At :: "('c \<Rightarrow> string) \<Rightarrow> 'c \<Rightarrow> ((string \<times> 'c) list \<Rightarrow> (string \<times> 'c) list) \<Rightarrow> 'c dedupResponseHeap \<Rightarrow> ('c SeriesResponse option \<times> 'c dedupResponseHeap) option" where
  "dedup_At hash zero iter d =
     (if length (responses d) = 0 then Some (None, d\<lparr>responses := []\<rparr>)
      else if length (responses d) = 1 then Some (Some (responses d ! 0), d\<lparr>responses := []\<rparr>)
      else case chunkDedupMap hash (responses d) [] of
        None \<Rightarrow> None
      | Some m \<Rightarrow>
          (let finalChunks = replicate (length m) zero @ map snd (iter m) in
           case GetSeries (responses d ! 0) of
             None \<Rightarrow> None
           | Some (lbls, _) \<Rightarrow> Some (Some (SeriesR lbls finalChunks), d\<lparr>responses := []\<rparr>)))"

text \<open>
  The \<^verbatim>\<open>for\<close> loop of \<open>Next\<close>; it returns the state and the value of \<^verbatim>\<open>nextHeap\<close> on
  leaving, which the deferred function stores in \<open>previousNext\<close>.
\<close>

function dedup_loop :: "'c dedupResponseHeap \<Rightarrow> ('c dedupResponseHeap \<times> bool) option" where
  "dedup_loop d =
     (if \<not> fst (heap_Next (dh d)) then Some (d, False)
      else case heap_At (dh d) of
        None \<Rightarrow> None
      | Some (resp, h') \<Rightarrow>
          (case GetSeries resp of
             None \<Rightarrow> Some (d\<lparr>dh := h', previousResponse := Some resp\<rparr>, True)
           | Some (lbls, _) \<Rightarrow>
               (if responses d = [] then None
                else case GetSeries (last (responses d)) of
                  None \<Rightarrow> None
                | Some (lastLbls, _) \<Rightarrow>
                    if labels_Compare lbls lastLbls = 0
                    then dedup_loop (d\<lparr>dh := h', responses := responses d @ [resp]\<rparr>)
                    else Some (d\<lparr>dh := h', previousResponse := Some resp\<rparr>, True))))"
  by pat_completeness auto
termination
  by (relation "measure (\<lambda>d. remaining (dh d))") (auto dest: remaining_heap_At)

declare dedup_loop.simps [simp del]

definition dedup_seeded :: "'c dedupResponseHeap \<Rightarrow> 'c SeriesResponse \<Rightarrow> (bool \<times> 'c dedupResponseHeap) option" where
  "dedup_seeded d resp =
     (let d1 = d\<lparr>responses := [resp]\<rparr> in
      if GetSeries resp = None then
        Some (True, d1\<lparr>previousResponse := Some resp, previousNext := False\<rparr>)
      else case dedup_loop d1 of
        None \<Rightarrow> None
      | Some (d2, nextHeap) \<Rightarrow> Some (True, d2\<lparr>previousNext := nextHeap\<rparr>))"

definition dedup_Next :: "'c dedupResponseHeap \<Rightarrow> (bool \<times> 'c dedupResponseHeap) option" where
  "dedup_Next d =
     (if \<not> previousNext d then Some (length (responses d) > 0, d)
      else case previousResponse d of
        Some resp \<Rightarrow> dedup_seeded (d\<lparr>previousResponse := None\<rparr>) resp
      | None \<Rightarrow>
          (case heap_At (dh d) of
             None \<Rightarrow> None
           | Some (resp, h') \<Rightarrow> dedup_seeded (d\<lparr>dh := h'\<rparr>) resp))"


section \<open>Running the mergers\<close>

text \<open>
  The tests build a tree over freshly allocated series sets, one per slice of label sets,
  each with its cursor at 0, and then alternate \<open>Pop\<close>, \<open>At\<close> and \<open>Fix\<close> until \<open>Pop\<close>
  returns nil. \<open>popAll k\<close> does at most \<open>k\<close> such rounds and reports how the run ended.
\<close>

definition streams_mem :: "Labels list list \<Rightarrow> nat \<Rightarrow> mockSeriesSet" where
  "streams_mem xs a = \<lparr>series = (if a < length xs then xs ! a else []), i = 0\<rparr>"

definition NewTree :: "Labels list list \<Rightarrow> ProxyTournamentTree result" where
  "NewTree xs = NewProxyTournamentTree (streams_mem xs) (map Some [0..<length xs])"

datatype outcome = Terminal | Panicked panic | Diverged | Unfinished

fun popAll :: "nat \<Rightarrow> ProxyTournamentTree \<Rightarrow> Labels list \<times> outcome" where
  "popAll 0 t = ([], Unfinished)"
| "popAll (Suc k) t =
     (case Pop t of
        None \<Rightarrow> ([], Diverged)
      | Some (Inl (p, _)) \<Rightarrow> ([], Panicked p)
      | Some (Inr (None, _)) \<Rightarrow> ([], Terminal)
      | Some (Inr (Some r, t1)) \<Rightarrow>
          (case Fix t1 of
             Inl (p, _) \<Rightarrow> ([At t1 r], Panicked p)
           | Inr t2 \<Rightarrow> (case popAll k t2 of (ls, out) \<Rightarrow> (At t1 r # ls, out))))"

definition merged :: "nat \<Rightarrow> Labels list list \<Rightarrow> Labels list \<times> outcome" where
  "merged k xs = (case NewTree xs of Inl (p, _) \<Rightarrow> ([], Panicked p) | Inr t \<Rightarrow> popAll k t)"

text \<open>The state after \<open>k\<close> rounds of \<open>Pop\<close> and \<open>Fix\<close>, when every one of them succeeds.\<close>

fun afterRounds :: "nat \<Rightarrow> ProxyTournamentTree \<Rightarrow> ProxyTournamentTree option" where
  "afterRounds 0 t = Some t"
| "afterRounds (Suc k) t =
     (case Pop t of
        Some (Inr (Some r, t1)) \<Rightarrow> (case Fix t1 of Inr t2 \<Rightarrow> afterRounds k t2 | Inl _ \<Rightarrow> None)
      | _ \<Rightarrow> None)"

definition rootWinner :: "ProxyTournamentTree \<Rightarrow> SeriesSet" where
  "rootWinner t =
     (case auxiliaryNodes t ! (length (auxiliaryNodes t) - 1) of None \<Rightarrow> infinity | Some n \<Rightarrow> ss n)"

definition liveLeaves :: "ProxyTournamentTree \<Rightarrow> Labels list" where
  "liveLeaves t = concat (map (\<lambda>l. case l of None \<Rightarrow> [] | Some r \<Rightarrow> [At t r]) (nodes t))"

text \<open>\<open>k\<close> successive calls of \<open>Pop\<close>, with what each returned.\<close>

fun Pop_times :: "nat \<Rightarrow> ProxyTournamentTree \<Rightarrow> (SeriesSet list \<times> ProxyTournamentTree) result option" where
  "Pop_times 0 t = Some (Inr ([], t))"
| "Pop_times (Suc k) t =
     (case Pop t of
        None \<Rightarrow> None
      | Some (Inl e) \<Rightarrow> Some (Inl e)
      | Some (Inr (r, t1)) \<Rightarrow>
          (case Pop_times k t1 of
             None \<Rightarrow> None
           | Some (Inl e) \<Rightarrow> Some (Inl e)
           | Some (Inr (rs, t2)) \<Rightarrow> Some (Inr (r # rs, t2))))"

text \<open>\<open>k\<close> successive calls of the heap's \<open>Next\<close>, each followed by \<open>Err\<close>.\<close>

fun Next_times :: "('c respSet \<Rightarrow> string option) \<Rightarrow> nat \<Rightarrow> 'c ProxyResponseHeap \<Rightarrow> (bool \<times> string option) list \<times> 'c ProxyResponseHeap" where
  "Next_times childErr 0 h = ([], h)"
| "Next_times childErr (Suc k) h =
     (case heap_Next h of (b, h1) \<Rightarrow>
        (case heap_Err childErr h1 of (e, h2) \<Rightarrow>
           (case Next_times childErr k h2 of (rs, h3) \<Rightarrow> ((b, e) # rs, h3))))"

text \<open>The heap merger over one \<open>respSet\<close> per slice of responses, drained the same way.\<close>

definition NewHeap :: "'c SeriesResponse list list \<Rightarrow> 'c ProxyResponseHeap option" where
  "NewHeap xs = NewProxyResponseHeap (map (\<lambda>rs. \<lparr>rs_responses = rs, rs_i = 0\<rparr>) xs)"

fun heapAll :: "nat \<Rightarrow> 'c ProxyResponseHeap \<Rightarrow> 'c SeriesResponse list \<times> outcome" where
  "heapAll 0 h = ([], Unfinished)"
| "heapAll (Suc k) h =
     (if \<not> fst (heap_Next h) then ([], Terminal)
      else case heap_At h of
        None \<Rightarrow> ([], Panicked IndexOutOfRange)
      | Some (r, h') \<Rightarrow> (case heapAll k h' of (rs, out) \<Rightarrow> (r # rs, out)))"

definition heapMerged :: "nat \<Rightarrow> Labels list list \<Rightarrow> Labels list \<times> outcome" where
  "heapMerged k xs =
     (case NewHeap (map (map (\<lambda>l. SeriesR l ([] :: unit list))) xs) of
        None \<Rightarrow> ([], Panicked IndexOutOfRange)
      | Some h \<Rightarrow>
          (case heapAll k h of
             (rs, out) \<Rightarrow> (concat (map (\<lambda>r. case GetSeries r of None \<Rightarrow> [] | Some (l, _) \<Rightarrow> [l]) rs), out)))"

text \<open>The deduplicating stream drained by alternating \<open>Next\<close> and \<open>At\<close>.\<close>

fun dedupAll :: "('c \<Rightarrow> string) \<Rightarrow> 'c \<Rightarrow> ((string \<times> 'c) list \<Rightarrow> (string \<times> 'c) list) \<Rightarrow> nat \<Rightarrow> 'c dedupResponseHeap \<Rightarrow> 'c SeriesResponse option list \<times> outcome" where
  "dedupAll hash zero iter 0 d = ([], Unfinished)"
| "dedupAll hash zero iter (Suc k) d =
     (case dedup_Next d of
        None \<Rightarrow> ([], Panicked IndexOutOfRange)
      | Some (False, _) \<Rightarrow> ([], Terminal)
      | Some (True, d1) \<Rightarrow>
          (case dedup_At hash zero iter d1 of
             None \<Rightarrow> ([], Panicked NilPointerDereference)
           | Some (r, d2) \<Rightarrow>
               (case dedupAll hash zero iter k d2 of (rs, out) \<Rightarrow> (r # rs, out))))"

subsection \<open>Inputs of the tests and scenarios\<close>

definition S1 :: "Labels list list" where
  "S1 = [[[(''test'', ''baa'')]], [[(''test'', ''bab'')]]]"

definition tied :: "Labels list list" where
  "tied = [[[(''test'', ''baa'')]], [[(''test'', ''baa'')]]]"

text \<open>
  One stream that yields a warning and then a series; a buffered run of two responses
  with one label set and the chunks \<open>h1\<close> and \<open>h2\<close>, a chunk being identified with its
  hash there; a heap with a single one-series child, and an implementation of the
  children's \<open>Err\<close> that reports a failure.
\<close>

definition warningThenSeries :: "'c SeriesResponse list list" where
  "warningThenSeries = [[WarningR ''w'', SeriesR [(''test'', ''baa'')] []]]"

definition runA :: "string dedupResponseHeap" where
  "runA = \<lparr>dh = [],
     responses = [SeriesR [(''l'', ''A'')] [''h1''], SeriesR [(''l'', ''A'')] [''h2'']],
     previousResponse = None, previousNext = False\<rparr>"

definition oneSeries :: "unit respSet" where
  "oneSeries = \<lparr>rs_responses = [SeriesR [(''test'', ''baa'')] []], rs_i = 0\<rparr>"

definition failingErr :: "'c respSet \<Rightarrow> string option" where
  "failingErr s = Some ''upstream failed''"

text \<open>The tree built over \<open>S1\<close>, and the same tree after one round of \<open>Pop\<close> and \<open>Fix\<close>.\<close>

definition drained :: ProxyTournamentTree where
  "drained = \<lparr>mem = (streams_mem S1)(0 := \<lparr>series = [[(''test'', ''baa'')]], i = 1\<rparr>),
      nodes = [None, Some 1],
      auxiliaryNodes = [Some \<lparr>ss = None, previousAuxIndex = - 1, previousNodeIndex = 0\<rparr>],
      lastChangedNodeIndex = 0\<rparr>"

definition S1_tree :: ProxyTournamentTree where
  "S1_tree = \<lparr>mem = streams_mem S1, nodes = [Some 0, Some 1],
      auxiliaryNodes = [Some \<lparr>ss = Some 0, previousAuxIndex = - 1, previousNodeIndex = 0\<rparr>],
      lastChangedNodeIndex = - 1\<rparr>"

text \<open>
  What the construction and \<open>Fix\<close> leave alone: the memory, the leaves,
  \<open>lastChangedNodeIndex\<close> and the number of auxiliary slots.
\<close>

definition sameFrame :: "ProxyTournamentTree \<Rightarrow> ProxyTournamentTree \<Rightarrow> bool" where
  "sameFrame t t' = (mem t' = mem t \<and> nodes t' = nodes t \<and>
     lastChangedNodeIndex t' = lastChangedNodeIndex t \<and>
     length (auxiliaryNodes t') = length (auxiliaryNodes t))"



subsection \<open>The winner chain\<close>

text \<open>
  \<open>reach aux c k\<close>: slot \<open>k\<close> is reached from slot \<open>c\<close> by following
  \<open>previousAuxIndex\<close>; the winner chain of a tree starts at its last auxiliary slot.
  \<open>nilledOnly\<close>: nothing but auxiliary slots differs, and a slot that differs is nil.
\<close>

inductive reach :: "treeAuxNode option list \<Rightarrow> int \<Rightarrow> int \<Rightarrow> bool" for aux c where
  start: "reach aux c c"
| step: "reach aux c k \<Longrightarrow> inRange aux k \<Longrightarrow> aux ! nat k = Some n \<Longrightarrow>
         previousAuxIndex n \<noteq> - 1 \<Longrightarrow> reach aux c (previousAuxIndex n)"

code_pred reach .

definition onChain :: "ProxyTournamentTree \<Rightarrow> int \<Rightarrow> bool" where
  "onChain t k = reach (auxiliaryNodes t) (int (length (auxiliaryNodes t)) - 1) k"

definition nilledOnly :: "ProxyTournamentTree \<Rightarrow> ProxyTournamentTree \<Rightarrow> bool" where
  "nilledOnly t t' =
     (mem t' = mem t \<and> nodes t' = nodes t \<and>
      length (auxiliaryNodes t') = length (auxiliaryNodes t) \<and>
      (\<forall>k < length (auxiliaryNodes t).
         auxiliaryNodes t' ! k = auxiliaryNodes t ! k \<or> auxiliaryNodes t' ! k = None))"

definition walked :: "ProxyTournamentTree \<Rightarrow> int \<Rightarrow> ProxyTournamentTree \<Rightarrow> bool" where
  "walked t c t' =
     (nilledOnly t t' \<and>
      (\<forall>k < length (auxiliaryNodes t).
         auxiliaryNodes t' ! k =
           (if reach (auxiliaryNodes t) c (int k) then None else auxiliaryNodes t ! k)) \<and>
      (\<exists>k n. k < length (auxiliaryNodes t) \<and> reach (auxiliaryNodes t) c (int k) \<and>
         auxiliaryNodes t ! k = Some n \<and> previousAuxIndex n = - 1 \<and>
         previousNodeIndex n \<noteq> - 1 \<and> lastChangedNodeIndex t' = previousNodeIndex n))"

definition panicked :: "ProxyTournamentTree \<Rightarrow> ProxyTournamentTree \<Rightarrow> bool" where
  "panicked t t' = (nilledOnly t t' \<and> lastChangedNodeIndex t' = lastChangedNodeIndex t)"

definition walkOk :: "ProxyTournamentTree \<Rightarrow> int \<Rightarrow> treeAuxNode \<Rightarrow> ProxyTournamentTree result \<Rightarrow> bool" where
  "walkOk t c n res =
     ((inRange (auxiliaryNodes t) c \<and> auxiliaryNodes t ! nat c = Some n \<longrightarrow>
         (case res of Inl (p, t') \<Rightarrow> panicked t t' | Inr t' \<Rightarrow> walked t c t')) \<and>
      (inRange (auxiliaryNodes t) c \<and> auxiliaryNodes t ! nat c = None \<and> previousAuxIndex n = c \<longrightarrow>
         (case res of Inl (p, t') \<Rightarrow> panicked t t' | Inr t' \<Rightarrow> False)))"



subsection \<open>More inputs\<close>

text \<open>
  Three streams (the second test of \<open>TestTournamentTreePop\<close>) with the tree built over
  them, that tree after \<open>Pop\<close> and after the following \<open>Fix\<close>; a tree whose root refers
  to an auxiliary slot that does not exist; fourteen streams of one item each, the
  fifth holding the smallest label set; the tree built over two equal label sets.
\<close>

definition S2 :: "Labels list list" where
  "S2 = [[[(''test'', ''baa'')]], [[(''test'', ''bab'')]], [[(''test'', ''caa'')]]]"

definition S2_tree :: ProxyTournamentTree where
  "S2_tree = \<lparr>mem = streams_mem S2, nodes = [Some 0, Some 1, Some 2, None],
      auxiliaryNodes =
        [Some \<lparr>ss = Some 0, previousAuxIndex = - 1, previousNodeIndex = 0\<rparr>,
         Some \<lparr>ss = Some 2, previousAuxIndex = - 1, previousNodeIndex = 2\<rparr>,
         Some \<lparr>ss = Some 0, previousAuxIndex = 0, previousNodeIndex = - 1\<rparr>],
      lastChangedNodeIndex = - 1\<rparr>"

definition S2_popped :: ProxyTournamentTree where
  "S2_popped = S2_tree\<lparr>auxiliaryNodes :=
        [None, Some \<lparr>ss = Some 2, previousAuxIndex = - 1, previousNodeIndex = 2\<rparr>, None],
      lastChangedNodeIndex := 0\<rparr>"

definition S2_fixed :: ProxyTournamentTree where
  "S2_fixed = \<lparr>mem = (streams_mem S2)(0 := \<lparr>series = [[(''test'', ''baa'')]], i = 1\<rparr>),
      nodes = [None, Some 1, Some 2, None],
      auxiliaryNodes =
        [Some \<lparr>ss = None, previousAuxIndex = - 1, previousNodeIndex = 0\<rparr>,
         Some \<lparr>ss = Some 2, previousAuxIndex = - 1, previousNodeIndex = 2\<rparr>,
         Some \<lparr>ss = Some 2, previousAuxIndex = 1, previousNodeIndex = - 1\<rparr>],
      lastChangedNodeIndex = 0\<rparr>"

definition broken :: ProxyTournamentTree where
  "broken = \<lparr>mem = streams_mem S2, nodes = [Some 0, None],
      auxiliaryNodes = [Some \<lparr>ss = Some 0, previousAuxIndex = 5, previousNodeIndex = - 1\<rparr>],
      lastChangedNodeIndex = - 1\<rparr>"

definition fourteen :: "Labels list list" where
  "fourteen = map (\<lambda>v. [[(''l'', v)]])
     [''m'', ''m'', ''m'', ''m'', ''a'', ''m'', ''m'', ''m'', ''m'', ''m'', ''m'', ''m'', ''m'', ''m'']"

definition tied_tree :: ProxyTournamentTree where
  "tied_tree = \<lparr>mem = streams_mem tied, nodes = [Some 0, Some 1],
      auxiliaryNodes = [Some \<lparr>ss = Some 1, previousAuxIndex = - 1, previousNodeIndex = 1\<rparr>],
      lastChangedNodeIndex = - 1\<rparr>"


subsection \<open>Notions used in the proofs\<close>

text \<open>
  \<open>levelsSum c\<close>: the number of slots of a level of \<open>c\<close> nodes and of all levels above
  it. \<open>filled t b\<close>: every auxiliary slot below \<open>b\<close> exists and is not nil.
  \<open>ceilDiv\<close>: division rounded up. \<open>allChunks\<close>: the chunks of a run of responses in
  order; \<open>firstByHash\<close>: of a list of chunks, the first one of every hash.
\<close>

function levelsSum :: "nat \<Rightarrow> nat" where
  "levelsSum c = (if c \<ge> 1 then c + levelsSum (nextLevelNodeCount c) else 0)"
  by pat_completeness auto
termination
  by (relation "measure id") (auto simp: nextLevelNodeCount_less)

declare levelsSum.simps [simp del]

definition filled :: "ProxyTournamentTree \<Rightarrow> int \<Rightarrow> bool" where
  "filled t b = (\<forall>k. 0 \<le> k \<and> k < b \<longrightarrow> inRange (auxiliaryNodes t) k \<and> auxiliaryNodes t ! nat k \<noteq> None)"

definition ceilDiv :: "nat \<Rightarrow> nat \<Rightarrow> nat" where
  "ceilDiv n d = (n + d - 1) div d"

definition allChunks :: "'c SeriesResponse list \<Rightarrow> 'c list" where
  "allChunks rs = concat (map (\<lambda>r. case GetSeries r of None \<Rightarrow> [] | Some (_, cs) \<Rightarrow> cs) rs)"

fun firstByHash :: "('c \<Rightarrow> string) \<Rightarrow> 'c list \<Rightarrow> 'c list" where
  "firstByHash hash [] = []"
| "firstByHash hash (x # xs) = x # firstByHash hash (filter (\<lambda>y. hash y \<noteq> hash x) xs)"



section \<open>Properties\<close>

declare initialFix_leaves.simps [simp del] initialFix_level.simps [simp del]
  initialFix_levels.simps [simp del] Fix_loop.simps [simp del] auxCount.simps [simp del]

lemma sameFrame_refl: "sameFrame t t"
  by (simp add: sameFrame_def)

lemma sameFrame_trans: "sameFrame t t' \<Longrightarrow> sameFrame t' t'' \<Longrightarrow> sameFrame t t''"
  by (simp add: sameFrame_def)

lemma setAux_frame: "setAux t k n = Inr t' \<Longrightarrow> sameFrame t t'"
  by (auto simp: setAux_def sameFrame_def split: if_splits)

lemma initialFix_leaves_frame:
  "initialFix_leaves t left l = Inr (t', l') \<Longrightarrow> sameFrame t t'"
proof (induction t left l arbitrary: t' l' rule: initialFix_leaves.induct)
  case (1 t left lastLoserIndex)
  show ?case
  proof (cases "left < length (nodes t)")
    case False
    with "1.prems" show ?thesis
      by (simp add: initialFix_leaves.simps[of t] sameFrame_refl)
  next
    case True
    with "1.prems" obtain t1 where
      r: "left + 1 < length (nodes t)"
      and s: "setAux t (int (left div 2)) (leafPairNode t left) = Inr t1"
      and rec: "initialFix_leaves t1 (left + 2) (int (left div 2)) = Inr (t', l')"
      by (auto simp: initialFix_leaves.simps[of t] split: if_splits sum.splits)
    from "1.IH"[OF True _ s rec] r have "sameFrame t1 t'" by simp
    with setAux_frame[OF s] show ?thesis by (rule sameFrame_trans)
  qed
qed

lemma initialFix_level_frame:
  "initialFix_level t from until loserIdx p = Inr t' \<Longrightarrow> sameFrame t t'"
proof (induction t "from" until loserIdx p arbitrary: t' rule: initialFix_level.induct)
  case (1 t "from" until loserIdx p)
  show ?case
  proof (cases "loserIdx \<le> until")
    case False
    with "1.prems" show ?thesis
      by (simp add: initialFix_level.simps[of t] sameFrame_refl)
  next
    case True
    define leftIdx where "leftIdx = (if p mod 2 = 0 then p else p - 1)"
    define rightIdx where "rightIdx = (if p mod 2 = 0 then p + 1 else p)"
    from True "1.prems" obtain n t1 where
      n: "auxPairNode t from leftIdx rightIdx = Inr n"
      and s: "setAux t loserIdx n = Inr t1"
      and rec: "initialFix_level t1 from until (loserIdx + 1) (p + 2) = Inr t'"
      by (auto simp: initialFix_level.simps[of t] Let_def leftIdx_def rightIdx_def
               split: if_splits sum.splits)
    from "1.IH"[OF True leftIdx_def rightIdx_def n s rec] have "sameFrame t1 t'" .
    with setAux_frame[OF s] show ?thesis by (rule sameFrame_trans)
  qed
qed

lemma initialFix_levels_frame:
  "initialFix_levels t nodesInLevel from l = Inr t' \<Longrightarrow> sameFrame t t'"
proof (induction t nodesInLevel "from" l arbitrary: t' rule: initialFix_levels.induct)
  case (1 t nodesInLevel "from" l)
  show ?case
  proof (cases "nodesInLevel \<ge> 1")
    case False
    with "1.prems" show ?thesis
      by (simp add: initialFix_levels.simps[of t] sameFrame_refl)
  next
    case True
    with "1.prems" obtain t1 where
      lv: "initialFix_level t (l + 1) (l + int nodesInLevel) (l + 1) from = Inr t1"
      and rec: "initialFix_levels t1 (nextLevelNodeCount nodesInLevel) (l + 1) (l + int nodesInLevel) = Inr t'"
      by (auto simp: initialFix_levels.simps[of t] split: if_splits sum.splits)
    from "1.IH"[OF True lv rec] have "sameFrame t1 t'" .
    with initialFix_level_frame[OF lv] show ?thesis by (rule sameFrame_trans)
  qed
qed

lemma initialFix_frame: "initialFix t = Inr t' \<Longrightarrow> sameFrame t t'"
  by (auto simp: initialFix_def sameFrame_refl split: sum.splits prod.splits if_splits
      dest!: initialFix_leaves_frame initialFix_levels_frame intro: sameFrame_trans)


subsection \<open>Evaluating the tree on concrete inputs\<close>

lemmas tree_eval = NewTree_def NewProxyTournamentTree_def initialFix_def
  initialFix_leaves.simps initialFix_levels.simps initialFix_level.simps auxCount.simps
  auxPairNode_def takeAux_def auxSs_def auxLabels_def nilAuxNode_def
  nextLevelNodeCount_def setAux_def inRange_def leafPairNode_def At_def mock_At_def
  Pop_def Pop_walk.simps Fix_def Fix_loop.simps mock_Next_def fixNode_def nilNode_def
  peekNode_def winnerNode_def Let_def

lemma S1_new: "NewTree S1 = Inr S1_tree"
  by (simp add: tree_eval S1_def S1_tree_def streams_mem_def)

lemma S1_drained: "afterRounds 1 S1_tree = Some drained"
  by (simp add: tree_eval S1_tree_def drained_def S1_def streams_mem_def)

lemmas heap_eval = heapMerged_def NewHeap_def NewProxyResponseHeap_def heap_Init_def down_def
  down_loop.simps up.simps Less_def rs_At_def rs_Next_def heap_At_def heap_Fix_def heap_Remove_def
  heap_Next_def Empty_def Swap_def Let_def

lemmas dedup_eval = NewDedupResponseHeap_def dedup_Next_def dedup_seeded_def dedup_loop.simps
  dedup_At_def insertChunk_def

lemma S2_new: "NewTree S2 = Inr S2_tree"
  by (simp add: tree_eval S2_def S2_tree_def streams_mem_def)

lemma tied_new: "NewTree tied = Inr tied_tree"
  by (simp add: tree_eval tied_def tied_tree_def streams_mem_def)

lemma S2_pop: "Pop S2_tree = Some (Inr (Some 0, S2_popped))"
  by (simp add: tree_eval S2_tree_def S2_popped_def)

lemma S2_fix: "Fix S2_popped = Inr S2_fixed"
  by (simp add: tree_eval S2_tree_def S2_popped_def S2_fixed_def S2_def streams_mem_def)

lemma broken_pop: "Pop broken = Some (Inl (IndexOutOfRange, broken))"
  by (simp add: tree_eval broken_def)

subsection \<open>Termination is idempotent\<close>

lemma Pop_nil_unchanged: "Pop t = Some (Inr (None, t')) \<Longrightarrow> t' = t"
  by (auto simp: Pop_def split: if_splits option.splits sum.splits)

lemma Pop_times_terminal:
  "Pop t = Some (Inr (None, t)) \<Longrightarrow> Pop_times k t = Some (Inr (replicate k None, t))"
  by (induction k) auto

lemma Next_times_empty:
  "\<not> fst (heap_Next h) \<Longrightarrow> Next_times childErr k h = (replicate k (False, None), h)"
  by (induction k) (auto simp: heap_Next_def heap_Err_def)

text \<open>
  C7. Once the heap merger's \<open>Next\<close> has returned false the heap is empty, and any number
  \<open>k\<close> of further calls return false, report no error and leave the heap as it is. Once
  the tournament tree's \<open>Pop\<close> has returned nil, the tree is unchanged and any number
  \<open>k\<close> of further calls of \<open>Pop\<close> return nil and leave it unchanged.
\<close>

theorem termination_is_idempotent:
  "(\<not> fst (heap_Next h) \<longrightarrow>
      h = [] \<and> Next_times childErr k h = (replicate k (False, None), h)) \<and>
   (Pop t = Some (Inr (None, t')) \<longrightarrow>
      t' = t \<and> Pop_times k t' = Some (Inr (replicate k None, t)))"
proof (intro conjI impI)
  assume a: "\<not> fst (heap_Next h)"
  then show "h = []" by (simp add: heap_Next_def Empty_def)
  from a show "Next_times childErr k h = (replicate k (False, None), h)"
    by (rule Next_times_empty)
next
  assume a: "Pop t = Some (Inr (None, t'))"
  then show eq: "t' = t" by (rule Pop_nil_unchanged)
  with a show "Pop_times k t' = Some (Inr (replicate k None, t))"
    by (simp add: Pop_times_terminal)
qed

theorem termination_is_idempotent_witness:
  "(\<not> fst (heap_Next ([] :: unit ProxyResponseHeap)) \<and>
      Next_times rs_Err 3 ([] :: unit ProxyResponseHeap)
        = ([(False, None), (False, None), (False, None)], [])) \<and>
   (Pop drained = Some (Inr (None, drained)) \<and>
      Pop_times 3 drained = Some (Inr ([None, None, None], drained)))"
proof -
  have h1: "\<not> fst (heap_Next ([] :: unit ProxyResponseHeap))"
    by (simp add: heap_Next_def Empty_def)
  have h2: "Pop drained = Some (Inr (None, drained))"
    by (simp add: Pop_def drained_def)
  from termination_is_idempotent[of "[] :: unit ProxyResponseHeap" rs_Err 3 drained drained] h1 h2
  show ?thesis by (simp add: numeral_3_eq_3)
qed

subsection \<open>Errors of the children\<close>

text \<open>
  C3, as the code has it. The heap merger's \<open>Err\<close> returns nil for every heap, whatever
  its children's \<open>Err\<close> would answer, and \<open>Next\<close> returns false exactly when the heap is
  empty; neither changes the heap.
\<close>

theorem merger_Err_is_always_nil:
  "heap_Err childErr h = (None, h) \<and> heap_Next h = (h \<noteq> [], h)"
  by (simp add: heap_Err_def heap_Next_def Empty_def)

text \<open>
  C3 as stated fails: over a child that reports an error, the merger's \<open>Err\<close> does not
  return that error and its \<open>Next\<close> still returns true.
\<close>

theorem merger_drops_child_error_counterexample:
  "failingErr oneSeries = Some ''upstream failed'' \<and>
   fst (heap_Err failingErr [oneSeries]) \<noteq> Some ''upstream failed'' \<and>
   fst (heap_Next [oneSeries])"
  by (simp add: failingErr_def heap_Err_def heap_Next_def Empty_def)

subsection \<open>The tournament merger on the scenario S1\<close>

text \<open>
  C1 at the input of the first test of \<open>TestTournamentTreePop\<close>, two streams of one item
  each: the rounds of \<open>Pop\<close> and \<open>Fix\<close> emit \<open>baa\<close> alone and the next \<open>Pop\<close> is
  terminal, so one item is emitted where the claim has two.
\<close>

theorem S1_second_stream_is_lost:
  "merged 3 S1 = ([[(''test'', ''baa'')]], Terminal)"
  by (simp add: merged_def S1_new)
     (simp add: tree_eval S1_tree_def S1_def streams_mem_def numeral_3_eq_3)

text \<open>
  C5 at the same input, after the first \<open>Pop\<close> and \<open>Fix\<close>: the tree has its one
  auxiliary node, and that last slot holds the sentinel although the second leaf is live
  with \<open>bab\<close>.
\<close>

theorem S1_root_after_Fix_is_not_the_minimum:
  "map_option (\<lambda>t. (length (auxiliaryNodes t), rootWinner t, liveLeaves t))
     (afterRounds 1 S1_tree) = Some (1, infinity, [[(''test'', ''bab'')]])"
  by (simp only: S1_drained)
     (simp add: drained_def rootWinner_def liveLeaves_def At_def mock_At_def streams_mem_def S1_def)

text \<open>
  The construction, too, can leave a root that is not the minimum: over \<open>fourteen\<close>
  the tree has 14 auxiliary nodes and its last slot holds a stream at \<open>m\<close>, while the
  fifth leaf is at \<open>a\<close>. The upper levels of \<open>initialFix\<close> pair slots by the parity of
  their index, not by their position within the level.
\<close>

lemma fourteen_root_is_not_the_minimum:
  "map_sum fst
     (\<lambda>t. (length (auxiliaryNodes t), map_option (At t) (rootWinner t), liveLeaves t ! 4))
     (NewTree fourteen) = Inr (14, Some [(''l'', ''m'')], [(''l'', ''a'')])"
  by (simp add: tree_eval fourteen_def streams_mem_def rootWinner_def liveLeaves_def)

text \<open>
  C9 at the same input: the heap merger emits \<open>baa\<close> and \<open>bab\<close>, the tournament merger
  emits \<open>baa\<close> only.
\<close>

theorem S1_heap_and_tournament_differ:
  "heapMerged 3 S1 = ([[(''test'', ''baa'')], [(''test'', ''bab'')]], Terminal) \<and>
   merged 3 S1 = ([[(''test'', ''baa'')]], Terminal)"
proof
  show "heapMerged 3 S1 = ([[(''test'', ''baa'')], [(''test'', ''bab'')]], Terminal)"
    by (simp add: heap_eval S1_def numeral_3_eq_3)
  show "merged 3 S1 = ([[(''test'', ''baa'')]], Terminal)"
    by (simp add: merged_def S1_new)
       (simp add: tree_eval S1_tree_def S1_def streams_mem_def numeral_3_eq_3)
qed

subsection \<open>The deduplicating stream\<close>

text \<open>
  A non-series seed: \<open>Next\<close> returns true with the buffer holding just that item, but it
  also leaves \<open>previousNext\<close> false, so that after \<open>At\<close> the following \<open>Next\<close> returns
  false, whatever the heap \<open>h'\<close> still holds.
\<close>

lemma dedup_ends_after_non_series:
  assumes "previousNext d" and "previousResponse d = None"
    and "heap_At (dh d) = Some (resp, h')" and "GetSeries resp = None"
  shows "\<exists>d1 d2. dedup_Next d = Some (True, d1) \<and> responses d1 = [resp] \<and>
           dedup_At hash zero iter d1 = Some (Some resp, d2) \<and>
           dh d2 = h' \<and> dedup_Next d2 = Some (False, d2)"
  using assms by (simp add: dedup_Next_def dedup_seeded_def dedup_At_def)

text \<open>
  C6 on one upstream stream that yields a warning and then a series: the deduplicating
  stream emits the warning, and its next \<open>Next\<close> returns false; the series is never
  emitted.
\<close>

theorem series_after_warning_is_never_emitted:
  "map_option (\<lambda>h. dedupAll hash zero iter 3 (NewDedupResponseHeap h)) (NewHeap warningThenSeries)
     = Some ([Some (WarningR ''w'')], Terminal)"
  by (simp add: heap_eval dedup_eval warningThenSeries_def numeral_3_eq_3)

text \<open>
  What \<open>At\<close> returns for any buffered run of two or more series responses: the chunk
  list is some enumeration \<open>real\<close> of the first chunk of every hash, preceded by as many
  zero-valued chunks as there are hashes.
\<close>

lemma map_of_None_iff: "map_of m k = None \<longleftrightarrow> k \<notin> fst ` set m"
  by (simp add: map_of_eq_None_iff)

lemma fold_insertChunk:
  "map snd (fold (insertChunk hash) xs m) =
     map snd m @ firstByHash hash (filter (\<lambda>x. hash x \<notin> fst ` set m) xs)"
proof (induction xs arbitrary: m)
  case Nil
  then show ?case by simp
next
  case (Cons x xs)
  show ?case
  proof (cases "hash x \<in> fst ` set m")
    case True
    then obtain v where "map_of m (hash x) = Some v"
      using map_of_None_iff[of m "hash x"] by auto
    then have "insertChunk hash x m = m" by (simp add: insertChunk_def)
    with Cons.IH[of m] True show ?thesis by simp
  next
    case False
    then have "map_of m (hash x) = None" by (simp add: map_of_None_iff)
    then have i: "insertChunk hash x m = m @ [(hash x, x)]" by (simp add: insertChunk_def)
    have "filter (\<lambda>y. hash y \<notin> fst ` set (m @ [(hash x, x)])) xs
          = filter (\<lambda>y. hash y \<noteq> hash x) (filter (\<lambda>y. hash y \<notin> fst ` set m) xs)"
      by (auto intro: filter_cong)
    with Cons.IH[of "m @ [(hash x, x)]"] i False show ?thesis by simp
  qed
qed

lemma chunkDedupMap_fold:
  "\<forall>r \<in> set rs. GetSeries r \<noteq> None \<Longrightarrow>
     chunkDedupMap hash rs m = Some (fold (insertChunk hash) (allChunks rs) m)"
  by (induction rs arbitrary: m) (auto simp: allChunks_def)

lemma firstByHash_hashes: "hash ` set (firstByHash hash xs) = hash ` set xs"
  by (induction hash xs rule: firstByHash.induct) auto

lemma firstByHash_subset: "set (firstByHash hash xs) \<subseteq> set xs"
  by (induction hash xs rule: firstByHash.induct) auto

lemma firstByHash_distinct: "distinct (map hash (firstByHash hash xs))"
proof (induction hash xs rule: firstByHash.induct)
  case (1 hash)
  then show ?case by simp
next
  case (2 hash x xs)
  have "hash x \<notin> hash ` set (firstByHash hash (filter (\<lambda>y. hash y \<noteq> hash x) xs))"
    using firstByHash_subset[of hash "filter (\<lambda>y. hash y \<noteq> hash x) xs"] by auto
  with 2 show ?case by simp
qed

lemma firstByHash_length: "length (firstByHash hash xs) = card (hash ` set xs)"
proof -
  have "length (firstByHash hash xs) = length (map hash (firstByHash hash xs))" by simp
  also have "\<dots> = card (set (map hash (firstByHash hash xs)))"
    using distinct_card[OF firstByHash_distinct[of hash xs]] by simp
  also have "\<dots> = card (hash ` set xs)" by (simp add: firstByHash_hashes)
  finally show ?thesis .
qed

lemma dedup_At_zero_prefix:
  assumes len: "2 \<le> length (responses d)"
    and ser: "\<forall>r \<in> set (responses d). GetSeries r \<noteq> None"
    and it: "\<And>m. mset (iter m) = mset m"
  shows "\<exists>lbls cs0 real.
           GetSeries (responses d ! 0) = Some (lbls, cs0) \<and>
           dedup_At hash zero iter d =
             Some (Some (SeriesR lbls (replicate (length real) zero @ real)), d\<lparr>responses := []\<rparr>) \<and>
           mset real = mset (firstByHash hash (allChunks (responses d))) \<and>
           length real = card (hash ` set (allChunks (responses d)))"
proof -
  define m where "m = fold (insertChunk hash) (allChunks (responses d)) []"
  have cm: "chunkDedupMap hash (responses d) [] = Some m"
    using chunkDedupMap_fold[OF ser] by (simp add: m_def)
  have sm: "map snd m = firstByHash hash (allChunks (responses d))"
    using fold_insertChunk[of hash "allChunks (responses d)" "[]"] by (simp add: m_def)
  have "0 < length (responses d)" using len by linarith
  then have "responses d ! 0 \<in> set (responses d)" by (rule nth_mem)
  with ser obtain lbls cs0 where g: "GetSeries (responses d ! 0) = Some (lbls, cs0)" by fastforce
  define real where "real = map snd (iter m)"
  have "mset real = mset (map snd m)"
    unfolding real_def using it[of m] by (metis mset_map)
  then have mr: "mset real = mset (firstByHash hash (allChunks (responses d)))" by (simp add: sm)
  then have "length real = length (firstByHash hash (allChunks (responses d)))"
    by (rule mset_eq_length)
  then have lr: "length real = card (hash ` set (allChunks (responses d)))"
    by (simp add: firstByHash_length)
  have ne: "responses d \<noteq> []" "length (responses d) \<noteq> Suc 0" using len by auto
  have "length m = length real"
    using mset_eq_length[OF it[of m]] by (simp add: real_def)
  then have "dedup_At hash zero iter d =
      Some (Some (SeriesR lbls (replicate (length real) zero @ real)), d\<lparr>responses := []\<rparr>)"
    using ne cm g by (simp add: dedup_At_def Let_def real_def)
  with g mr lr show ?thesis by blast
qed


text \<open>
  C2 on a buffered run of two responses with the chunks \<open>h1\<close> and \<open>h2\<close>: in whatever order
  \<open>iter\<close> the map is enumerated, \<open>At\<close> returns four chunks, two zero-valued ones followed
  by the two of the run.
\<close>

theorem S5_run_gets_zero_valued_chunks:
  "dedup_At id [] iter runA =
     Some (Some (SeriesR [(''l'', ''A'')]
                   ([[], []] @ map snd (iter [(''h1'', ''h1''), (''h2'', ''h2'')]))),
           runA\<lparr>responses := []\<rparr>)"
  by (simp add: dedup_At_def runA_def insertChunk_def numeral_2_eq_2)


subsection \<open>The leaf level of initialFix\<close>

lemma At_frame: "sameFrame t t' \<Longrightarrow> At t' = At t"
  by (simp add: sameFrame_def At_def fun_eq_iff)

lemma leafPairNode_frame:
  assumes "sameFrame t t'"
  shows "leafPairNode t' left = leafPairNode t left"
proof -
  have n: "nodes t' = nodes t" using assms by (simp add: sameFrame_def)
  have a: "At t' = At t" using assms by (rule At_frame)
  show ?thesis unfolding leafPairNode_def n a by (rule refl)
qed

lemma setAux_nth:
  "setAux t k n = Inr t' \<Longrightarrow>
     auxiliaryNodes t' ! j = (if int j = k then Some n else auxiliaryNodes t ! j)"
  by (auto simp: setAux_def inRange_def split: if_splits)

lemma initialFix_leaves_aux:
  "initialFix_leaves t left l = Inr (t', l') \<Longrightarrow> even left \<Longrightarrow>
     (\<forall>k. left \<le> 2 * k \<and> 2 * k + 1 < length (nodes t) \<longrightarrow>
            auxiliaryNodes t' ! k = Some (leafPairNode t (2 * k)) \<and> int k \<le> l') \<and>
     (\<forall>k. 2 * k < left \<longrightarrow> auxiliaryNodes t' ! k = auxiliaryNodes t ! k)"
proof (induction t left l arbitrary: t' l' rule: initialFix_leaves.induct)
  case (1 t left lastLoserIndex)
  show ?case
  proof (cases "left < length (nodes t)")
    case False
    with "1.prems" show ?thesis
      by (auto simp: initialFix_leaves.simps[of t])
  next
    case True
    with "1.prems" obtain t1 where
      r: "left + 1 < length (nodes t)"
      and s: "setAux t (int (left div 2)) (leafPairNode t left) = Inr t1"
      and rec: "initialFix_leaves t1 (left + 2) (int (left div 2)) = Inr (t', l')"
      by (auto simp: initialFix_leaves.simps[of t] split: if_splits sum.splits)
    have fr: "sameFrame t t1" using s by (rule setAux_frame)
    have ev: "even (left + 2)" using "1.prems" by simp
    from "1.IH"[OF True _ s rec ev] r
    have IH1: "\<And>k. left + 2 \<le> 2 * k \<Longrightarrow> 2 * k + 1 < length (nodes t1) \<Longrightarrow>
                 auxiliaryNodes t' ! k = Some (leafPairNode t1 (2 * k)) \<and> int k \<le> l'"
      and IH2: "\<And>k. 2 * k < left + 2 \<Longrightarrow> auxiliaryNodes t' ! k = auxiliaryNodes t1 ! k"
      by auto
    have nodes1: "nodes t1 = nodes t" using fr by (simp add: sameFrame_def)
    have l'_ge: "int (left div 2) \<le> l'"
    proof (cases "left + 2 < length (nodes t)")
      case True
      have "left + 2 \<le> 2 * (left div 2 + 1)" using \<open>even left\<close> by auto
      moreover have "2 * (left div 2 + 1) + 1 < length (nodes t1) \<or> True" by simp
      show ?thesis
      proof (cases "2 * (left div 2 + 1) + 1 < length (nodes t1)")
        case True
        from IH1[OF \<open>left + 2 \<le> 2 * (left div 2 + 1)\<close> True] show ?thesis by simp
      next
        case False
        then have "left + 3 \<ge> length (nodes t)" using \<open>even left\<close> nodes1 by auto
        with True have "length (nodes t1) = left + 3" using nodes1 by simp
        then have "initialFix_leaves t1 (left + 2) (int (left div 2)) = Inl (IndexOutOfRange, t1)"
          by (simp add: initialFix_leaves.simps[of t1])
        with rec show ?thesis by simp
      qed
    next
      case False
      then have "l' = int (left div 2)" using rec nodes1
        by (simp add: initialFix_leaves.simps[of t1])
      then show ?thesis by simp
    qed
    have P1: "auxiliaryNodes t' ! k = Some (leafPairNode t (2 * k)) \<and> int k \<le> l'"
      if k: "left \<le> 2 * k \<and> 2 * k + 1 < length (nodes t)" for k
    proof (cases "left + 2 \<le> 2 * k")
      case True
      with IH1[of k] k nodes1 leafPairNode_frame[OF fr] show ?thesis by simp
    next
      case False
      with k \<open>even left\<close> have kk: "2 * k = left" by presburger
      then have "k = left div 2" by auto
      with IH2[of k] kk setAux_nth[OF s, of k] l'_ge show ?thesis by simp
    qed
    have P2: "auxiliaryNodes t' ! k = auxiliaryNodes t ! k" if k: "2 * k < left" for k
    proof -
      from k \<open>even left\<close> have "int k \<noteq> int (left div 2)" by auto
      with IH2[of k] k setAux_nth[OF s, of k] show ?thesis by simp
    qed
    from P1 P2 show ?thesis by blast
  qed
qed

lemma initialFix_level_aux:
  "initialFix_level t from until loserIdx p = Inr t' \<Longrightarrow> int k < loserIdx \<Longrightarrow>
     auxiliaryNodes t' ! k = auxiliaryNodes t ! k"
proof (induction t "from" until loserIdx p arbitrary: t' rule: initialFix_level.induct)
  case (1 t "from" until loserIdx p)
  show ?case
  proof (cases "loserIdx \<le> until")
    case False
    with "1.prems" show ?thesis
      by (simp add: initialFix_level.simps[of t])
  next
    case True
    define leftIdx where "leftIdx = (if p mod 2 = 0 then p else p - 1)"
    define rightIdx where "rightIdx = (if p mod 2 = 0 then p + 1 else p)"
    from True "1.prems" obtain n t1 where
      n: "auxPairNode t from leftIdx rightIdx = Inr n"
      and s: "setAux t loserIdx n = Inr t1"
      and rec: "initialFix_level t1 from until (loserIdx + 1) (p + 2) = Inr t'"
      by (auto simp: initialFix_level.simps[of t] Let_def leftIdx_def rightIdx_def
               split: if_splits sum.splits)
    from "1.IH"[OF True leftIdx_def rightIdx_def n s rec] "1.prems"(2)
    have "auxiliaryNodes t' ! k = auxiliaryNodes t1 ! k" by simp
    with setAux_nth[OF s, of k] "1.prems"(2) show ?thesis by simp
  qed
qed

lemma initialFix_levels_aux:
  "initialFix_levels t nodesInLevel from l = Inr t' \<Longrightarrow> int k \<le> l \<Longrightarrow>
     auxiliaryNodes t' ! k = auxiliaryNodes t ! k"
proof (induction t nodesInLevel "from" l arbitrary: t' rule: initialFix_levels.induct)
  case (1 t nodesInLevel "from" l)
  show ?case
  proof (cases "nodesInLevel \<ge> 1")
    case False
    with "1.prems" show ?thesis
      by (simp add: initialFix_levels.simps[of t])
  next
    case True
    with "1.prems" obtain t1 where
      lv: "initialFix_level t (l + 1) (l + int nodesInLevel) (l + 1) from = Inr t1"
      and rec: "initialFix_levels t1 (nextLevelNodeCount nodesInLevel) (l + 1) (l + int nodesInLevel) = Inr t'"
      by (auto simp: initialFix_levels.simps[of t] split: if_splits sum.splits)
    from "1.IH"[OF True lv rec] "1.prems"(2)
    have "auxiliaryNodes t' ! k = auxiliaryNodes t1 ! k" by simp
    with initialFix_level_aux[OF lv, of k] "1.prems"(2) show ?thesis by simp
  qed
qed

lemma initialFix_leaf_level:
  assumes "initialFix t = Inr t'" and "2 * k + 1 < length (nodes t)"
  shows "auxiliaryNodes t' ! k = Some (leafPairNode t (2 * k))"
proof -
  from assms(1) obtain t1 l where
    lv: "initialFix_leaves t 0 (- 1) = Inr (t1, l)"
    and rest: "(if l < int (length (auxiliaryNodes t1)) then
            initialFix_levels t1
              (nextLevelNodeCount (nextLevelNodeCount (length (nodes t1)))) 0 l
          else Inr t1) = Inr t'"
    by (auto simp: initialFix_def split: sum.splits prod.splits)
  from initialFix_leaves_aux[OF lv] assms(2)
  have a: "auxiliaryNodes t1 ! k = Some (leafPairNode t (2 * k))" and b: "int k \<le> l"
    by auto
  show ?thesis
  proof (cases "l < int (length (auxiliaryNodes t1))")
    case True
    with rest initialFix_levels_aux[of t1 _ 0 l t' k] b a show ?thesis by simp
  next
    case False
    with rest a show ?thesis by simp
  qed
qed


subsection \<open>The construction never panics\<close>

lemma auxCount_levelsSum: "c \<ge> 1 \<Longrightarrow> auxCount c acc = acc + levelsSum (nextLevelNodeCount c)"
proof (induction c acc rule: auxCount.induct)
  case (1 n auxNodes)
  show ?case
  proof (cases "n > 1")
    case False
    with "1.prems" have "n = 1" by simp
    then show ?thesis
      by (simp add: auxCount.simps[of "Suc 0"] nextLevelNodeCount_def levelsSum.simps[of 0])
  next
    case True
    show ?thesis
    proof (cases "n mod 2 = 0")
      case e: True
      from True e have h: "n div 2 \<ge> 1" by presburger
      from "1.IH"(1)[OF True e h]
      have "auxCount (n div 2) (auxNodes + n div 2)
            = auxNodes + n div 2 + levelsSum (nextLevelNodeCount (n div 2))" .
      moreover have "nextLevelNodeCount n = n div 2" using e by (simp add: nextLevelNodeCount_def)
      ultimately show ?thesis using True e h
        by (simp add: auxCount.simps[of n] levelsSum.simps[of "n div 2"])
    next
      case o: False
      have h: "1 + n div 2 \<ge> 1" by simp
      from "1.IH"(2)[OF True o h]
      have "auxCount (1 + n div 2) (auxNodes + (1 + n div 2))
            = auxNodes + (1 + n div 2) + levelsSum (nextLevelNodeCount (1 + n div 2))" .
      moreover have "nextLevelNodeCount n = 1 + n div 2" using o True by (simp add: nextLevelNodeCount_def)
      ultimately show ?thesis using True o
        by (simp add: auxCount.simps[of n] levelsSum.simps[of "Suc (n div 2)"])
    qed
  qed
qed

lemma setAux_ok: "inRange (auxiliaryNodes t) k \<Longrightarrow> \<exists>t'. setAux t k n = Inr t'"
  by (simp add: setAux_def)

lemma setAux_filled:
  assumes "setAux t k n = Inr t'" and "filled t k"
  shows "filled t' (k + 1)"
proof -
  from assms(1) have r: "inRange (auxiliaryNodes t) k"
    and len: "length (auxiliaryNodes t') = length (auxiliaryNodes t)"
    by (auto simp: setAux_def split: if_splits)
  show ?thesis
    unfolding filled_def
  proof (intro allI impI)
    fix j assume j: "0 \<le> j \<and> j < k + 1"
    show "inRange (auxiliaryNodes t') j \<and> auxiliaryNodes t' ! nat j \<noteq> None"
    proof (cases "j = k")
      case True
      with r len setAux_nth[OF assms(1), of "nat j"] j show ?thesis by (simp add: inRange_def)
    next
      case False
      with j assms(2) have "inRange (auxiliaryNodes t) j \<and> auxiliaryNodes t ! nat j \<noteq> None"
        by (simp add: filled_def)
      with False len setAux_nth[OF assms(1), of "nat j"] j show ?thesis by (simp add: inRange_def)
    qed
  qed
qed

lemma initialFix_leaves_ok:
  assumes "even (length (nodes t))" and "even left" and "left \<le> length (nodes t)"
    and "length (nodes t) div 2 \<le> length (auxiliaryNodes t)"
    and "filled t (int (left div 2))"
  shows "\<exists>t'. initialFix_leaves t left l =
            Inr (t', if left < length (nodes t) then int (length (nodes t) div 2) - 1 else l) \<and>
          filled t' (int (length (nodes t) div 2))"
  using assms
proof (induction t left l rule: initialFix_leaves.induct)
  case (1 t left l)
  let ?n = "length (nodes t)"
  show ?case
  proof (cases "left < ?n")
    case False
    with "1.prems" have "left = ?n" by simp
    with False "1.prems" show ?thesis by (simp add: initialFix_leaves.simps[of t])
  next
    case True
    with "1.prems" have r: "left + 1 < ?n" by presburger
    have "left div 2 < ?n div 2" using True "1.prems"(1,2) by presburger
    then have "inRange (auxiliaryNodes t) (int (left div 2))"
      using "1.prems"(4) by (simp add: inRange_def)
    from setAux_ok[OF this] obtain t1 where
      s: "setAux t (int (left div 2)) (leafPairNode t left) = Inr t1" by blast
    have fr: "sameFrame t t1" using s by (rule setAux_frame)
    then have n1: "nodes t1 = nodes t" and a1: "length (auxiliaryNodes t1) = length (auxiliaryNodes t)"
      by (simp_all add: sameFrame_def)
    have f1: "filled t1 (int ((left + 2) div 2))"
      using setAux_filled[OF s "1.prems"(5)] by (simp add: add.commute)
    from "1.IH"[OF True _ s] r n1 a1 f1 "1.prems"
    obtain t' where rec: "initialFix_leaves t1 (left + 2) (int (left div 2)) =
            Inr (t', if left + 2 < ?n then int (?n div 2) - 1 else int (left div 2))"
      and fl: "filled t' (int (?n div 2))"
      by auto
    have "(if left + 2 < ?n then int (?n div 2) - 1 else int (left div 2)) = int (?n div 2) - 1"
      using r "1.prems"(1,2) by presburger
    with rec have "initialFix_leaves t left l = Inr (t', int (?n div 2) - 1)"
      using True r s by (simp add: initialFix_leaves.simps[of t])
    with True fl show ?thesis by auto
  qed
qed


lemma filledD:
  "filled t b \<Longrightarrow> 0 \<le> k \<Longrightarrow> k < b \<Longrightarrow>
     inRange (auxiliaryNodes t) k \<and> (\<exists>n. auxiliaryNodes t ! nat k = Some n)"
  by (auto simp: filled_def)

lemma takeAux_ok:
  "filled t b \<Longrightarrow> 0 \<le> k \<Longrightarrow> k < b \<Longrightarrow> \<exists>n. takeAux t k = Inr n"
  by (drule (2) filledD) (auto simp: takeAux_def auxSs_def)

lemma auxPairNode_ok:
  assumes f: "filled t b" and l: "0 \<le> leftIdx" "leftIdx < b" and r: "0 \<le> rightIdx"
    and fb: "from \<le> b"
  shows "\<exists>n. auxPairNode t from leftIdx rightIdx = Inr n"
proof (cases "rightIdx \<ge> from")
  case True
  with takeAux_ok[OF f l] show ?thesis by (simp add: auxPairNode_def)
next
  case False
  with fb have rb: "rightIdx < b" by simp
  from filledD[OF f r rb] obtain nr where
    rr: "inRange (auxiliaryNodes t) rightIdx" "auxiliaryNodes t ! nat rightIdx = Some nr" by blast
  from filledD[OF f l] obtain nl where
    ll: "inRange (auxiliaryNodes t) leftIdx" "auxiliaryNodes t ! nat leftIdx = Some nl" by blast
  from takeAux_ok[OF f l] obtain a where a: "takeAux t leftIdx = Inr a" by blast
  from takeAux_ok[OF f r rb] obtain c where c: "takeAux t rightIdx = Inr c" by blast
  show ?thesis
    using False rr ll a c
    by (auto simp: auxPairNode_def nilAuxNode_def auxLabels_def auxSs_def split: option.splits)
qed

lemma initialFix_level_ok:
  assumes "filled t loserIdx" and "from \<le> loserIdx" and "until < int (length (auxiliaryNodes t))"
    and "0 \<le> p" and "loserIdx \<le> until \<longrightarrow> p + 2 * (until - loserIdx) < from"
    and "loserIdx \<le> until + 1" and "0 \<le> loserIdx"
  shows "\<exists>t'. initialFix_level t from until loserIdx p = Inr t' \<and> filled t' (until + 1)"
  using assms
proof (induction t "from" until loserIdx p rule: initialFix_level.induct)
  case (1 t "from" until loserIdx p)
  show ?case
  proof (cases "loserIdx \<le> until")
    case False
    with "1.prems" have "loserIdx = until + 1" by simp
    with False "1.prems"(1) show ?thesis by (simp add: initialFix_level.simps[of t])
  next
    case True
    define leftIdx where "leftIdx = (if p mod 2 = 0 then p else p - 1)"
    define rightIdx where "rightIdx = (if p mod 2 = 0 then p + 1 else p)"
    have l0: "0 \<le> leftIdx" using "1.prems"(4) unfolding leftIdx_def by presburger
    have "leftIdx \<le> p" by (simp add: leftIdx_def)
    with True "1.prems"(2,5) have l1: "leftIdx < loserIdx" by simp
    have r0: "0 \<le> rightIdx" using "1.prems"(4) by (simp add: rightIdx_def)
    from auxPairNode_ok[OF "1.prems"(1) l0 l1 r0 "1.prems"(2)] obtain n where
      n: "auxPairNode t from leftIdx rightIdx = Inr n" by blast
    have "inRange (auxiliaryNodes t) loserIdx"
      using True "1.prems"(3,7) by (simp add: inRange_def)
    from setAux_ok[OF this] obtain t1 where s: "setAux t loserIdx n = Inr t1" by blast
    have f1: "filled t1 (loserIdx + 1)" using setAux_filled[OF s "1.prems"(1)] .
    have len: "length (auxiliaryNodes t1) = length (auxiliaryNodes t)"
      using setAux_frame[OF s] by (simp add: sameFrame_def)
    from "1.IH"[OF True leftIdx_def rightIdx_def n s f1] True "1.prems" len
    obtain t' where "initialFix_level t1 from until (loserIdx + 1) (p + 2) = Inr t'"
      and "filled t' (until + 1)"
      by auto
    then show ?thesis using True n s
      by (simp add: initialFix_level.simps[of t] Let_def leftIdx_def rightIdx_def)
  qed
qed

lemma levelsSum_ge: "c \<le> levelsSum c"
  by (cases "c \<ge> 1") (simp_all add: levelsSum.simps[of c])

lemma nextLevel_twice: "nextLevelNodeCount c \<ge> 1 \<Longrightarrow> 2 * (int (nextLevelNodeCount c) - 1) < int c"
  unfolding nextLevelNodeCount_def by (auto split: if_splits, presburger+)

lemma initialFix_levels_ok:
  assumes "filled t (l + 1)" and "l + int (levelsSum c) < int (length (auxiliaryNodes t))"
    and "0 \<le> from" and "c \<ge> 1 \<longrightarrow> from + 2 * (int c - 1) < l + 1" and "- 1 \<le> l"
  shows "\<exists>t'. initialFix_levels t c from l = Inr t'"
  using assms
proof (induction t c "from" l rule: initialFix_levels.induct)
  case (1 t c "from" l)
  show ?case
  proof (cases "c \<ge> 1")
    case False
    then show ?thesis by (simp add: initialFix_levels.simps[of t])
  next
    case True
    have u: "l + int c < int (length (auxiliaryNodes t))"
      using "1.prems"(2) levelsSum_ge[of c] by simp
    have "l + 1 \<le> l + int c \<longrightarrow> from + 2 * (l + int c - (l + 1)) < l + 1"
      using "1.prems"(4) True by simp
    from initialFix_level_ok[OF "1.prems"(1) _ u "1.prems"(3) this] True "1.prems"(5)
    obtain t1 where lv: "initialFix_level t (l + 1) (l + int c) (l + 1) from = Inr t1"
      and f1: "filled t1 (l + int c + 1)" by auto
    have len: "length (auxiliaryNodes t1) = length (auxiliaryNodes t)"
      using initialFix_level_frame[OF lv] by (simp add: sameFrame_def)
    have s: "l + int c + int (levelsSum (nextLevelNodeCount c)) < int (length (auxiliaryNodes t1))"
      using "1.prems"(2) True len by (simp add: levelsSum.simps[of c])
    have b: "nextLevelNodeCount c \<ge> 1 \<longrightarrow>
               l + 1 + 2 * (int (nextLevelNodeCount c) - 1) < l + int c + 1"
      using nextLevel_twice[of c] by auto
    from "1.IH"[OF True lv f1 s _ b] "1.prems"(5)
    obtain t' where "initialFix_levels t1 (nextLevelNodeCount c) (l + 1) (l + int c) = Inr t'"
      by auto
    then show ?thesis using True lv by (simp add: initialFix_levels.simps[of t])
  qed
qed

lemma filled_0: "filled t 0"
  by (auto simp: filled_def)

lemma NewProxyTournamentTree_ok: "\<exists>t. NewProxyTournamentTree m ns = Inr t"
proof -
  define nodes1 where "nodes1 = (if length ns mod 2 \<noteq> 0 then ns @ [infinity] else ns)"
  define t0 where "t0 = \<lparr>mem = m, nodes = nodes1,
      auxiliaryNodes = replicate (auxCount (length nodes1) 0) None,
      lastChangedNodeIndex = - 1\<rparr>"
  let ?n = "length nodes1"
  have ev: "even ?n" by (auto simp: nodes1_def)
  have A: "length (auxiliaryNodes t0) = auxCount ?n 0" by (simp add: t0_def)
  have n0: "nodes t0 = nodes1" by (simp add: t0_def)
  have cnt: "?n \<ge> 2 \<Longrightarrow> auxCount ?n 0 = ?n div 2 + levelsSum (nextLevelNodeCount (?n div 2))"
  proof -
    assume n2: "?n \<ge> 2"
    then have "auxCount ?n 0 = levelsSum (nextLevelNodeCount ?n)"
      using auxCount_levelsSum[of ?n 0] by simp
    moreover have "nextLevelNodeCount ?n = ?n div 2" using ev by (auto simp: nextLevelNodeCount_def)
    moreover have "?n div 2 \<ge> 1" using n2 by simp
    ultimately show ?thesis by (simp add: levelsSum.simps[of "?n div 2"])
  qed
  have half: "?n div 2 \<le> length (auxiliaryNodes t0)"
  proof (cases "?n \<ge> 2")
    case True then show ?thesis using cnt A by simp
  next
    case False then show ?thesis by simp
  qed
  from initialFix_leaves_ok[of t0 0 "- 1"] ev n0 half filled_0
  obtain t1 where lv: "initialFix_leaves t0 0 (- 1) =
            Inr (t1, if 0 < ?n then int (?n div 2) - 1 else - 1)"
    and f1: "filled t1 (int (?n div 2))" by auto
  define l where "l = (if 0 < ?n then int (?n div 2) - 1 else - 1)"
  have fr: "sameFrame t0 t1" using initialFix_leaves_frame[OF lv] .
  then have len: "length (auxiliaryNodes t1) = auxCount ?n 0" and n1: "nodes t1 = nodes1"
    using A n0 by (simp_all add: sameFrame_def)
  have l_eq: "l + 1 = int (?n div 2)" using ev by (auto simp: l_def)
  have "\<exists>t. initialFix_levels t1 (nextLevelNodeCount (nextLevelNodeCount ?n)) 0 l = Inr t"
  proof (cases "?n \<ge> 2")
    case False
    with ev have "?n = 0" by presburger
    then show ?thesis
      by (simp add: nextLevelNodeCount_def initialFix_levels.simps[of t1])
  next
    case True
    have nl: "nextLevelNodeCount ?n = ?n div 2" using ev by (auto simp: nextLevelNodeCount_def)
    have a: "filled t1 (l + 1)" using f1 l_eq by simp
    have b: "l + int (levelsSum (nextLevelNodeCount (?n div 2))) < int (length (auxiliaryNodes t1))"
      using len cnt[OF True] l_eq by simp
    have c: "nextLevelNodeCount (?n div 2) \<ge> 1 \<longrightarrow>
               0 + 2 * (int (nextLevelNodeCount (?n div 2)) - 1) < l + 1"
      using nextLevel_twice[of "?n div 2"] l_eq by auto
    have d: "- 1 \<le> l" by (simp add: l_def)
    from initialFix_levels_ok[OF a b _ c d] show ?thesis by (simp add: nl)
  qed
  then obtain t where t: "initialFix_levels t1 (nextLevelNodeCount (nextLevelNodeCount ?n)) 0 l = Inr t"
    by blast
  have "initialFix t0 = Inr t \<or> initialFix t0 = Inr t1"
    using lv t n1 by (auto simp: initialFix_def l_def)
  then show ?thesis
    by (auto simp: NewProxyTournamentTree_def Let_def t0_def nodes1_def)
qed


text \<open>
  The first half of C5: a tree over \<open>n \<ge> 2\<close> leaves (after padding) has
  \<open>\<lceil>n/2\<rceil> + \<lceil>n/4\<rceil> + \<dots>\<close> auxiliary nodes, the sum ending with the first term
  that is 1.
\<close>

lemma ceilDiv_2: "ceilDiv n 2 = (if n mod 2 = 0 then n div 2 else 1 + n div 2)"
  unfolding ceilDiv_def by presburger

lemma auxCount_step: "n > 1 \<Longrightarrow> auxCount n acc = auxCount (ceilDiv n 2) (acc + ceilDiv n 2)"
  by (subst auxCount.simps) (simp add: ceilDiv_2)

lemma ceilDiv_half: "ceilDiv (ceilDiv n 2) (2 ^ k) = ceilDiv n (2 ^ Suc k)"
proof -
  have p: "(2::nat) ^ k \<ge> 1" by simp
  have "(n + 1) div 2 + 2 ^ k - 1 = (n + 2 * 2 ^ k - 1) div 2"
    using p by (cases "(2::nat) ^ k") auto
  then have "ceilDiv (ceilDiv n 2) (2 ^ k) = ((n + 2 * 2 ^ k - 1) div 2) div 2 ^ k"
    by (simp add: ceilDiv_def)
  also have "\<dots> = (n + 2 * 2 ^ k - 1) div (2 * 2 ^ k)"
    by (simp add: div_mult2_eq)
  finally show ?thesis by (simp add: ceilDiv_def)
qed

lemma auxCount_sum:
  "1 \<le> K \<Longrightarrow> 2 \<le> n \<Longrightarrow> ceilDiv n (2 ^ K) = 1 \<Longrightarrow>
   (\<And>k. 1 \<le> k \<Longrightarrow> k < K \<Longrightarrow> 1 < ceilDiv n (2 ^ k)) \<Longrightarrow>
   auxCount n acc = acc + (\<Sum>k = 1..K. ceilDiv n (2 ^ k))"
proof (induction K arbitrary: n acc)
  case 0
  then show ?case by simp
next
  case (Suc K)
  show ?case
  proof (cases "K = 0")
    case True
    with Suc.prems have "ceilDiv n 2 = 1" by simp
    with Suc.prems(2) have "n = 2" unfolding ceilDiv_def by presburger
    then show ?thesis using True
      by (simp add: auxCount.simps[of 2] auxCount.simps[of "Suc 0"] ceilDiv_def)
  next
    case False
    then have K1: "1 \<le> K" by simp
    have big: "1 < ceilDiv n 2" using Suc.prems(4)[of 1] False by simp
    then have n2: "2 \<le> ceilDiv n 2" by simp
    have e: "ceilDiv (ceilDiv n 2) (2 ^ K) = 1" using Suc.prems(3) by (simp add: ceilDiv_half)
    have r: "1 < ceilDiv (ceilDiv n 2) (2 ^ k)" if "1 \<le> k" "k < K" for k
      using Suc.prems(4)[of "Suc k"] that unfolding ceilDiv_half by simp
    have "auxCount n acc = auxCount (ceilDiv n 2) (acc + ceilDiv n 2)"
      using Suc.prems(2) by (simp add: auxCount_step)
    also have "\<dots> = acc + ceilDiv n 2 + (\<Sum>k = 1..K. ceilDiv (ceilDiv n 2) (2 ^ k))"
      by (rule Suc.IH[OF K1 n2 e r])
    also have "(\<Sum>k = 1..K. ceilDiv (ceilDiv n 2) (2 ^ k)) = (\<Sum>k = 1..K. ceilDiv n (2 ^ Suc k))"
      by (simp add: ceilDiv_half)
    also have "\<dots> = (\<Sum>k = 2..Suc K. ceilDiv n (2 ^ k))"
      using sum.shift_bounds_cl_Suc_ivl[of "\<lambda>k. ceilDiv n (2 ^ k)" 1 K] by (simp add: numeral_2_eq_2)
    also have "acc + ceilDiv n 2 + \<dots> = acc + (\<Sum>k = 1..Suc K. ceilDiv n (2 ^ k))"
      using sum.atLeast_Suc_atMost[of 1 "Suc K" "\<lambda>k. ceilDiv n (2 ^ k)"]
      by (simp add: numeral_2_eq_2)
    finally show ?thesis .
  qed
qed


lemma NewProxyTournamentTree_aux_count:
  assumes "NewProxyTournamentTree m ns = Inr t" and "2 \<le> length (nodes t)"
    and "1 \<le> K" and "ceilDiv (length (nodes t)) (2 ^ K) = 1"
    and "\<And>k. 1 \<le> k \<Longrightarrow> k < K \<Longrightarrow> 1 < ceilDiv (length (nodes t)) (2 ^ k)"
  shows "length (auxiliaryNodes t) = (\<Sum>k = 1..K. ceilDiv (length (nodes t)) (2 ^ k))"
proof -
  define t0 where "t0 = \<lparr>mem = m,
      nodes = (if length ns mod 2 \<noteq> 0 then ns @ [infinity] else ns),
      auxiliaryNodes = replicate
        (auxCount (length (if length ns mod 2 \<noteq> 0 then ns @ [infinity] else ns)) 0) None,
      lastChangedNodeIndex = - 1\<rparr>"
  from assms(1) have "initialFix t0 = Inr t"
    by (simp add: NewProxyTournamentTree_def Let_def t0_def)
  from initialFix_frame[OF this]
  have "length (auxiliaryNodes t) = auxCount (length (nodes t)) 0"
    by (simp add: sameFrame_def t0_def)
  with auxCount_sum[OF assms(3) assms(2) assms(4) assms(5), of 0] show ?thesis by simp
qed

subsection \<open>Fix before Pop\<close>

text \<open>
  C8. Calling \<open>Fix\<close> on a freshly constructed tree, before any \<open>Pop\<close>, is fatal: for
  every memory and every slice of leaves the construction returns a tree whose
  \<open>lastChangedNodeIndex\<close> is \<open>-1\<close>, and \<open>Fix\<close> on that tree panics with its
  contract-violation message, the tree being exactly as it was.
\<close>

theorem Fix_before_Pop_is_fatal:
  "\<exists>t. NewProxyTournamentTree m ns = Inr t \<and>
       lastChangedNodeIndex t = - 1 \<and> Fix t = Inl (FixBeforePop, t)"
proof -
  from NewProxyTournamentTree_ok obtain t where t: "NewProxyTournamentTree m ns = Inr t"
    by blast
  then have "lastChangedNodeIndex t = - 1"
    by (auto simp: NewProxyTournamentTree_def Let_def sameFrame_def dest!: initialFix_frame)
  then have "Fix t = Inl (FixBeforePop, t)" by (simp add: Fix_def)
  with t \<open>lastChangedNodeIndex t = - 1\<close> show ?thesis by blast
qed

theorem Fix_before_Pop_is_fatal_witness:
  "NewProxyTournamentTree (streams_mem S1) [Some 0, Some 1] = Inr S1_tree \<and>
   lastChangedNodeIndex S1_tree = - 1 \<and> Fix S1_tree = Inl (FixBeforePop, S1_tree)"
proof -
  have h: "NewProxyTournamentTree (streams_mem S1) [Some 0, Some 1] = Inr S1_tree"
    using S1_new by (simp add: NewTree_def S1_def)
  from Fix_before_Pop_is_fatal[of "streams_mem S1" "[Some 0, Some 1]"] h show ?thesis by simp
qed

text \<open>
  C4, as the code has it. The constructed tree keeps the given leaves (padded with the
  sentinel to an even number), and for every pair of adjacent leaves \<open>(2k, 2k+1)\<close>:
  when both are live, slot \<open>k\<close> records the left leaf if its label set is strictly
  smaller and the right leaf otherwise, so the right leaf on a tie; when only the left
  is live, slot \<open>k\<close> records the left leaf; when only the right is live, slot \<open>k\<close>
  holds the right leaf's stream; when both are the sentinel, slot \<open>k\<close> holds the sentinel.
\<close>

theorem leaf_pair_winner:
  assumes "NewProxyTournamentTree m ns = Inr t" and "2 * k + 1 < length (nodes t)"
  shows "mem t = m \<and> nodes t = (if length ns mod 2 \<noteq> 0 then ns @ [infinity] else ns) \<and>
     (case (nodes t ! (2 * k), nodes t ! (2 * k + 1)) of
        (Some l, Some r) \<Rightarrow>
          auxiliaryNodes t ! k =
            Some (if labels_Compare (At t l) (At t r) < 0
                  then \<lparr>ss = Some l, previousAuxIndex = - 1, previousNodeIndex = int (2 * k)\<rparr>
                  else \<lparr>ss = Some r, previousAuxIndex = - 1, previousNodeIndex = int (2 * k + 1)\<rparr>)
      | (Some l, None) \<Rightarrow>
          auxiliaryNodes t ! k =
            Some \<lparr>ss = Some l, previousAuxIndex = - 1, previousNodeIndex = int (2 * k)\<rparr>
      | (None, Some r) \<Rightarrow> map_option ss (auxiliaryNodes t ! k) = Some (Some r)
      | (None, None) \<Rightarrow> map_option ss (auxiliaryNodes t ! k) = Some infinity)"
proof -
  define t0 where "t0 = \<lparr>mem = m,
      nodes = (if length ns mod 2 \<noteq> 0 then ns @ [infinity] else ns),
      auxiliaryNodes = replicate
        (auxCount (length (if length ns mod 2 \<noteq> 0 then ns @ [infinity] else ns)) 0) None,
      lastChangedNodeIndex = - 1\<rparr>"
  from assms(1) have i: "initialFix t0 = Inr t"
    by (simp add: NewProxyTournamentTree_def Let_def t0_def)
  from initialFix_frame[OF i] have fr: "sameFrame t0 t" .
  then have mn: "mem t = m" "nodes t = (if length ns mod 2 \<noteq> 0 then ns @ [infinity] else ns)"
    by (simp_all add: sameFrame_def t0_def)
  from fr assms(2) have "2 * k + 1 < length (nodes t0)" by (simp add: sameFrame_def)
  from initialFix_leaf_level[OF i this] leafPairNode_frame[OF fr]
  have "auxiliaryNodes t ! k = Some (leafPairNode t (2 * k))" by simp
  then have "case (nodes t ! (2 * k), nodes t ! (2 * k + 1)) of
        (Some l, Some r) \<Rightarrow>
          auxiliaryNodes t ! k =
            Some (if labels_Compare (At t l) (At t r) < 0
                  then \<lparr>ss = Some l, previousAuxIndex = - 1, previousNodeIndex = int (2 * k)\<rparr>
                  else \<lparr>ss = Some r, previousAuxIndex = - 1, previousNodeIndex = int (2 * k + 1)\<rparr>)
      | (Some l, None) \<Rightarrow>
          auxiliaryNodes t ! k =
            Some \<lparr>ss = Some l, previousAuxIndex = - 1, previousNodeIndex = int (2 * k)\<rparr>
      | (None, Some r) \<Rightarrow> map_option ss (auxiliaryNodes t ! k) = Some (Some r)
      | (None, None) \<Rightarrow> map_option ss (auxiliaryNodes t ! k) = Some infinity"
    by (simp add: leafPairNode_def Let_def split: option.splits)
  with mn show ?thesis by blast
qed

theorem leaf_pair_winner_witness:
  "NewProxyTournamentTree (streams_mem tied) [Some 0, Some 1] = Inr tied_tree \<and>
   2 * 0 + 1 < length (nodes tied_tree) \<and>
   labels_Compare (At tied_tree 0) (At tied_tree 1) = 0 \<and>
   auxiliaryNodes tied_tree ! 0 =
     Some \<lparr>ss = Some 1, previousAuxIndex = - 1, previousNodeIndex = 1\<rparr>"
proof -
  have h1: "NewProxyTournamentTree (streams_mem tied) [Some 0, Some 1] = Inr tied_tree"
    using tied_new by (simp add: NewTree_def tied_def)
  have h2: "2 * 0 + 1 < length (nodes tied_tree)" by (simp add: tied_tree_def)
  have h3: "labels_Compare (At tied_tree 0) (At tied_tree 1) = 0"
    by (simp add: At_def mock_At_def tied_tree_def streams_mem_def tied_def)
  have n: "nodes tied_tree ! (2 * 0) = Some 0" "nodes tied_tree ! (2 * 0 + 1) = Some 1"
    by (simp_all add: tied_tree_def)
  have "case (nodes tied_tree ! (2 * 0), nodes tied_tree ! (2 * 0 + 1)) of
        (Some l, Some r) \<Rightarrow>
          auxiliaryNodes tied_tree ! 0 =
            Some (if labels_Compare (At tied_tree l) (At tied_tree r) < 0
                  then \<lparr>ss = Some l, previousAuxIndex = - 1, previousNodeIndex = int (2 * 0)\<rparr>
                  else \<lparr>ss = Some r, previousAuxIndex = - 1, previousNodeIndex = int (2 * 0 + 1)\<rparr>)
      | (Some l, None) \<Rightarrow>
          auxiliaryNodes tied_tree ! 0 =
            Some \<lparr>ss = Some l, previousAuxIndex = - 1, previousNodeIndex = int (2 * 0)\<rparr>
      | (None, Some r) \<Rightarrow> map_option ss (auxiliaryNodes tied_tree ! 0) = Some (Some r)
      | (None, None) \<Rightarrow> map_option ss (auxiliaryNodes tied_tree ! 0) = Some infinity"
    using leaf_pair_winner[OF h1 h2] by blast
  then have "auxiliaryNodes tied_tree ! 0 =
     Some \<lparr>ss = Some 1, previousAuxIndex = - 1, previousNodeIndex = 1\<rparr>"
    unfolding n using h3 by simp
  with h1 h2 h3 show ?thesis by blast
qed


text \<open>
  C4 as stated fails: over two leaves with equal label sets, slot 0 records the right
  leaf (index 1), not the left one.
\<close>

theorem tie_records_the_right_leaf_counterexample:
  "labels_Compare [(''test'', ''baa'')] [(''test'', ''baa'')] = 0 \<and>
   map_sum fst (\<lambda>t. (map (map_option (At t)) (nodes t), auxiliaryNodes t ! 0)) (NewTree tied)
     = Inr ([Some [(''test'', ''baa'')], Some [(''test'', ''baa'')]],
            Some \<lparr>ss = Some 1, previousAuxIndex = - 1, previousNodeIndex = 1\<rparr>) \<and>
   map_sum fst (\<lambda>t. map_option previousNodeIndex (auxiliaryNodes t ! 0)) (NewTree tied)
     \<noteq> Inr (Some 0)"
  by (simp add: tied_new) (simp add: tied_tree_def At_def mock_At_def streams_mem_def tied_def)


subsection \<open>What Pop changes\<close>

lemma nilledOnly_refl: "nilledOnly t t"
  by (simp add: nilledOnly_def)

lemma nilledOnly_nil: "nilledOnly t (t\<lparr>auxiliaryNodes := (auxiliaryNodes t)[j := None]\<rparr>)"
  by (simp add: nilledOnly_def nth_list_update) (metis nth_list_update_eq nth_list_update_neq)

lemma nilledOnly_trans: "nilledOnly t t1 \<Longrightarrow> nilledOnly t1 t2 \<Longrightarrow> nilledOnly t t2"
  unfolding nilledOnly_def by (metis (no_types, lifting))

lemma reach_end:
  assumes "inRange aux c" and "aux ! nat c = Some n" and "previousAuxIndex n = - 1"
  shows "reach aux c k \<Longrightarrow> k = c"
  by (induction rule: reach.induct) (use assms in auto)

lemma reach_unfold:
  assumes c: "inRange aux c" and n: "aux ! nat c = Some n" and pa: "previousAuxIndex n \<noteq> - 1"
    and ne: "previousAuxIndex n \<noteq> c"
  shows "reach aux c k \<longleftrightarrow> k = c \<or> reach (aux[nat c := None]) (previousAuxIndex n) k"
proof
  assume "reach aux c k"
  then show "k = c \<or> reach (aux[nat c := None]) (previousAuxIndex n) k"
  proof (induction rule: reach.induct)
    case start
    then show ?case by simp
  next
    case (step k m)
    show ?case
    proof (cases "k = c")
      case True
      with step n have "m = n" by simp
      then show ?thesis by (simp add: reach.start)
    next
      case False
      with step.IH have r: "reach (aux[nat c := None]) (previousAuxIndex n) k" by simp
      from False step.hyps(2) c have "nat k \<noteq> nat c" by (auto simp: inRange_def)
      then have "aux[nat c := None] ! nat k = Some m" using step.hyps(3) by simp
      moreover have "inRange (aux[nat c := None]) k" using step.hyps(2) by (simp add: inRange_def)
      ultimately show ?thesis using reach.step[OF r _ _ step.hyps(4)] by simp
    qed
  qed
next
  assume "k = c \<or> reach (aux[nat c := None]) (previousAuxIndex n) k"
  then show "reach aux c k"
  proof
    assume "k = c" then show ?thesis by (simp add: reach.start)
  next
    assume "reach (aux[nat c := None]) (previousAuxIndex n) k"
    then show ?thesis
    proof (induction rule: reach.induct)
      case start
      show ?case using reach.step[OF reach.start c n pa] .
    next
      case (step k m)
      from step.hyps(2) have ir: "inRange aux k" by (simp add: inRange_def)
      have "nat k \<noteq> nat c"
      proof
        assume "nat k = nat c"
        moreover have "nat c < length aux" using c by (auto simp: inRange_def)
        ultimately have "aux[nat c := None] ! nat k = None" by simp
        with step.hyps(3) show False by simp
      qed
      then have "aux ! nat k = Some m" using step.hyps(3) by simp
      from reach.step[OF step.IH ir this step.hyps(4)] show ?case .
    qed
  qed
qed

lemma panicked_via_nil:
  "panicked (t\<lparr>auxiliaryNodes := (auxiliaryNodes t)[j := None]\<rparr>) t' \<Longrightarrow> panicked t t'"
  unfolding panicked_def using nilledOnly_trans[OF nilledOnly_nil] by fastforce

lemma walked_step:
  assumes c: "inRange (auxiliaryNodes t) c" and n: "auxiliaryNodes t ! nat c = Some n"
    and pa: "previousAuxIndex n \<noteq> - 1" and ne: "previousAuxIndex n \<noteq> c"
    and w: "walked (t\<lparr>auxiliaryNodes := (auxiliaryNodes t)[nat c := None]\<rparr>) (previousAuxIndex n) t'"
  shows "walked t c t'"
proof -
  let ?aux = "auxiliaryNodes t"
  let ?t1 = "t\<lparr>auxiliaryNodes := ?aux[nat c := None]\<rparr>"
  have cl: "nat c < length ?aux" using c by (auto simp: inRange_def)
  have ru: "\<And>k. reach ?aux c k \<longleftrightarrow> k = c \<or> reach (?aux[nat c := None]) (previousAuxIndex n) k"
    by (rule reach_unfold[OF c n pa ne])
  from w have nil1: "nilledOnly ?t1 t'"
    and slots1: "\<And>k. k < length ?aux \<Longrightarrow> auxiliaryNodes t' ! k =
        (if reach (?aux[nat c := None]) (previousAuxIndex n) (int k) then None
         else ?aux[nat c := None] ! k)"
    and end1: "\<exists>k m. k < length ?aux \<and> reach (?aux[nat c := None]) (previousAuxIndex n) (int k) \<and>
         ?aux[nat c := None] ! k = Some m \<and> previousAuxIndex m = - 1 \<and>
         previousNodeIndex m \<noteq> - 1 \<and> lastChangedNodeIndex t' = previousNodeIndex m"
    by (simp_all add: walked_def)
  have A: "nilledOnly t t'" using nilledOnly_trans[OF nilledOnly_nil nil1] .
  have B: "auxiliaryNodes t' ! k = (if reach ?aux c (int k) then None else ?aux ! k)"
    if k: "k < length ?aux" for k
  proof (cases "int k = c")
    case True
    then have "k = nat c" by simp
    then have "?aux[nat c := None] ! k = None" using cl by simp
    with slots1[OF k] have "auxiliaryNodes t' ! k = None" by (simp split: if_splits)
    moreover have "reach ?aux c (int k)" using True by (simp add: reach.start)
    ultimately show ?thesis by simp
  next
    case False
    then have "k \<noteq> nat c" using c by (auto simp: inRange_def)
    then have "?aux[nat c := None] ! k = ?aux ! k" by simp
    with slots1[OF k] ru[of "int k"] False show ?thesis by simp
  qed
  from end1 obtain k m where k: "k < length ?aux"
    and r: "reach (?aux[nat c := None]) (previousAuxIndex n) (int k)"
    and m: "?aux[nat c := None] ! k = Some m"
    and rest: "previousAuxIndex m = - 1" "previousNodeIndex m \<noteq> - 1"
      "lastChangedNodeIndex t' = previousNodeIndex m"
    by blast
  have "k \<noteq> nat c" using m cl by auto
  then have "?aux ! k = Some m" using m by simp
  moreover have "reach ?aux c (int k)" using ru r by blast
  ultimately have C: "\<exists>k m. k < length ?aux \<and> reach ?aux c (int k) \<and>
         ?aux ! k = Some m \<and> previousAuxIndex m = - 1 \<and>
         previousNodeIndex m \<noteq> - 1 \<and> lastChangedNodeIndex t' = previousNodeIndex m"
    using k rest by blast
  from A B C show ?thesis by (simp add: walked_def)
qed

lemma walked_end:
  assumes c: "inRange (auxiliaryNodes t) c" and n: "auxiliaryNodes t ! nat c = Some n"
    and pa: "previousAuxIndex n = - 1" and pn: "previousNodeIndex n \<noteq> - 1"
  shows "walked t c (t\<lparr>auxiliaryNodes := (auxiliaryNodes t)[nat c := None],
                        lastChangedNodeIndex := previousNodeIndex n\<rparr>)"
proof -
  let ?aux = "auxiliaryNodes t"
  have cl: "nat c < length ?aux" and c0: "int (nat c) = c" using c by (auto simp: inRange_def)
  have re: "\<And>k. reach ?aux c k \<longleftrightarrow> k = c"
    using reach_end[OF c n pa] reach.start by blast
  have A: "nilledOnly t (t\<lparr>auxiliaryNodes := ?aux[nat c := None],
                        lastChangedNodeIndex := previousNodeIndex n\<rparr>)"
    using nilledOnly_nil[of t "nat c"] by (simp add: nilledOnly_def)
  have B: "?aux[nat c := None] ! k = (if reach ?aux c (int k) then None else ?aux ! k)"
    if "k < length ?aux" for k
    using that c0 by (auto simp: re nth_list_update)
  have C: "\<exists>k m. k < length ?aux \<and> reach ?aux c (int k) \<and> ?aux ! k = Some m \<and>
       previousAuxIndex m = - 1 \<and> previousNodeIndex m \<noteq> - 1 \<and>
       previousNodeIndex n = previousNodeIndex m"
    using cl c0 n pa pn re by (intro exI[of _ "nat c"] exI[of _ n]) simp
  from A B C show ?thesis by (simp add: walked_def)
qed

lemma Pop_walk_walkOk: "Pop_walk t c n = Some res \<Longrightarrow> walkOk t c n res"
proof (erule Pop_walk.raw_induct[rotated], goal_cases)
  case (1 walk t c n res)
  let ?aux = "auxiliaryNodes t"
  let ?t1 = "t\<lparr>auxiliaryNodes := ?aux[nat c := None]\<rparr>"
  show ?case
  proof (cases "previousAuxIndex n \<noteq> - 1")
    case pa: True
    show ?thesis
    proof (cases "inRange ?aux (previousAuxIndex n) \<and> inRange ?aux c")
      case False
      with pa "1"(2) have "res = Inl (IndexOutOfRange, t)" by (auto split: if_splits)
      then show ?thesis by (simp add: walkOk_def panicked_def nilledOnly_refl)
    next
      case rng: True
      show ?thesis
      proof (cases "?aux ! nat (previousAuxIndex n)")
        case None
        with pa rng "1"(2) have "res = Inl (NilPointerDereference, ?t1)" by simp
        then show ?thesis by (simp add: walkOk_def panicked_def nilledOnly_nil)
      next
        case (Some n1)
        with pa rng "1"(2) have "walk ?t1 (previousAuxIndex n) n1 = Some res" by simp
        from "1"(1)[OF this] have IH: "walkOk ?t1 (previousAuxIndex n) n1 res" .
        have cl: "nat c < length ?aux" using rng by (auto simp: inRange_def)
        have part2: "\<not> (?aux ! nat c = None \<and> previousAuxIndex n = c)" using Some by auto
        have part1: "(case res of Inl (p, t') \<Rightarrow> panicked t t' | Inr t' \<Rightarrow> walked t c t')"
          if n: "?aux ! nat c = Some n"
        proof (cases "previousAuxIndex n = c")
          case True
          with Some n have "n1 = n" by simp
          with IH True rng cl have "case res of Inl (p, t') \<Rightarrow> panicked ?t1 t' | Inr t' \<Rightarrow> False"
            by (simp add: walkOk_def inRange_def)
          then show ?thesis by (auto split: sum.splits intro: panicked_via_nil)
        next
          case False
          then have "nat (previousAuxIndex n) \<noteq> nat c" using rng by (auto simp: inRange_def)
          then have "auxiliaryNodes ?t1 ! nat (previousAuxIndex n) = Some n1" using Some by simp
          moreover have "inRange (auxiliaryNodes ?t1) (previousAuxIndex n)"
            using rng by (simp add: inRange_def)
          ultimately have "case res of Inl (p, t') \<Rightarrow> panicked ?t1 t'
              | Inr t' \<Rightarrow> walked ?t1 (previousAuxIndex n) t'"
            using IH by (simp add: walkOk_def)
          then show ?thesis
            using walked_step[of t c n, OF _ n pa False] rng
            by (auto split: sum.splits intro: panicked_via_nil)
        qed
        from part1 part2 show ?thesis unfolding walkOk_def by blast
      qed
    qed
  next
    case pa: False
    show ?thesis
    proof (cases "previousNodeIndex n \<noteq> - 1")
      case pn: True
      show ?thesis
      proof (cases "inRange ?aux c")
        case False
        with pa pn "1"(2) have "res = Inl (IndexOutOfRange, t)" by simp
        then show ?thesis by (simp add: walkOk_def panicked_def nilledOnly_refl)
      next
        case True
        with pa pn "1"(2)
        have res: "res = Inr (t\<lparr>auxiliaryNodes := ?aux[nat c := None],
                        lastChangedNodeIndex := previousNodeIndex n\<rparr>)" by simp
        have "previousAuxIndex n \<noteq> c" using pa True by (auto simp: inRange_def)
        then show ?thesis using res walked_end[of t c n] True pa pn
          by (simp add: walkOk_def)
      qed
    next
      case False
      with pa "1"(2) have "walk t c n = Some res" by simp
      from "1"(1)[OF this] show ?thesis .
    qed
  qed
qed


lemma Fix_loop_frame:
  "Fix_loop t nodesInLevel from until auxNodeOffset leftIdx rightIdx lookInNodes = Inr t' \<Longrightarrow>
     sameFrame t t'"
proof (induction t nodesInLevel "from" until auxNodeOffset leftIdx rightIdx lookInNodes
       arbitrary: t' rule: Fix_loop.induct)
  case (1 t nodesInLevel "from" until auxNodeOffset leftIdx rightIdx lookInNodes)
  show ?case
  proof (cases "nodesInLevel > 0")
    case False
    with "1.prems" show ?thesis
      by (simp add: Fix_loop.simps[of t] sameFrame_refl)
  next
    case True
    define loserIdx where "loserIdx = from + auxNodeOffset"
    from True "1.prems" obtain n t1 where
      n: "fixNode t from leftIdx rightIdx lookInNodes = Inr n"
      and s: "setAux t loserIdx n = Inr t1"
      and rec: "Fix_loop t1 (nextLevelNodeCount nodesInLevel)
                    (until + 1) (until + int (nextLevelNodeCount nodesInLevel))
                    (auxNodeOffset div 2)
                    (if loserIdx mod 2 = 0 then loserIdx else loserIdx - 1)
                    (if loserIdx mod 2 = 0 then loserIdx + 1 else loserIdx)
                    False = Inr t'"
      by (auto simp: Fix_loop.simps[of t] Let_def loserIdx_def split: if_splits sum.splits)
    from "1.IH"[OF True loserIdx_def n s rec] have "sameFrame t1 t'" .
    with setAux_frame[OF s] show ?thesis by (rule sameFrame_trans)
  qed
qed

lemma Fix_advances_the_popped_leaf:
  assumes "Fix t = Inr t'"
  shows "\<exists>ref. inRange (nodes t) (lastChangedNodeIndex t) \<and>
           nodes t ! nat (lastChangedNodeIndex t) = Some ref \<and>
           mem t' = (mem t)(ref := fst (mock_Next (mem t ref)))"
proof -
  let ?lc = "lastChangedNodeIndex t"
  from assms have lc: "?lc \<noteq> - 1" and rng: "inRange (nodes t) ?lc"
    by (auto simp: Fix_def Let_def split: if_splits)
  from assms lc rng obtain ref where ref: "nodes t ! nat ?lc = Some ref"
    by (auto simp: Fix_def Let_def split: if_splits option.splits)
  define t1 where "t1 = t\<lparr>mem := (mem t)(ref := fst (mock_Next (mem t ref)))\<rparr>"
  define t2 where "t2 = (if \<not> snd (mock_Next (mem t ref))
                         then t1\<lparr>nodes := (nodes t1)[nat ?lc := infinity]\<rparr> else t1)"
  from assms lc rng ref obtain a b c d e where
    "Fix_loop t2 a b c d e (if ?lc mod 2 = 0 then ?lc + 1 else ?lc) True = Inr t'"
    by (auto simp: Fix_def Let_def t1_def t2_def split_beta split: if_splits)
  from Fix_loop_frame[OF this] have "mem t' = mem t2" by (simp add: sameFrame_def)
  then have "mem t' = (mem t)(ref := fst (mock_Next (mem t ref)))"
    by (simp add: t2_def t1_def)
  with rng ref show ?thesis by blast
qed


text \<open>
  C10. When \<open>Pop\<close> returns a stream, the memory (no stream is advanced) and the leaves
  are as before; an auxiliary slot is nil afterwards if it is on the winner chain and
  unchanged otherwise; \<open>lastChangedNodeIndex\<close> is the leaf index recorded in the node
  that ends the chain; and a following successful \<open>Fix\<close> advances exactly the stream
  of that leaf. When \<open>Pop\<close> panics, the memory, the leaves and \<open>lastChangedNodeIndex\<close>
  are as before and every auxiliary slot is unchanged or nil.
\<close>

theorem Pop_only_vacates_the_winner_chain:
  "(Pop t = Some (Inr (Some r, t')) \<longrightarrow>
      mem t' = mem t \<and> nodes t' = nodes t \<and>
      length (auxiliaryNodes t') = length (auxiliaryNodes t) \<and>
      (\<forall>k < length (auxiliaryNodes t).
         auxiliaryNodes t' ! k = (if onChain t (int k) then None else auxiliaryNodes t ! k)) \<and>
      (\<exists>k n. k < length (auxiliaryNodes t) \<and> onChain t (int k) \<and>
         auxiliaryNodes t ! k = Some n \<and> previousAuxIndex n = - 1 \<and>
         previousNodeIndex n \<noteq> - 1 \<and> lastChangedNodeIndex t' = previousNodeIndex n) \<and>
      (\<forall>t''. Fix t' = Inr t'' \<longrightarrow>
         (\<exists>ref. nodes t' ! nat (lastChangedNodeIndex t') = Some ref \<and>
            mem t'' = (mem t')(ref := fst (mock_Next (mem t' ref)))))) \<and>
   (Pop t = Some (Inl (p, t')) \<longrightarrow>
      mem t' = mem t \<and> nodes t' = nodes t \<and>
      lastChangedNodeIndex t' = lastChangedNodeIndex t \<and>
      length (auxiliaryNodes t') = length (auxiliaryNodes t) \<and>
      (\<forall>k < length (auxiliaryNodes t).
         auxiliaryNodes t' ! k = auxiliaryNodes t ! k \<or> auxiliaryNodes t' ! k = None))"
proof (intro conjI impI)
  let ?aux = "auxiliaryNodes t"
  let ?c = "int (length ?aux) - 1"
  assume a: "Pop t = Some (Inr (Some r, t'))"
  then have ne: "length ?aux \<noteq> 0" by (auto simp: Pop_def split: if_splits)
  from a ne obtain n where n: "?aux ! (length ?aux - 1) = Some n"
    and w: "Pop_walk t ?c n = Some (Inr t')"
    by (auto simp: Pop_def split: if_splits option.splits sum.splits)
  have c: "inRange ?aux ?c" using ne by (auto simp: inRange_def)
  have "nat ?c = length ?aux - 1" by simp
  with n have n': "?aux ! nat ?c = Some n" by simp
  from Pop_walk_walkOk[OF w] c n' have wk: "walked t ?c t'" by (simp add: walkOk_def)
  then show "mem t' = mem t" "nodes t' = nodes t"
    "length (auxiliaryNodes t') = length ?aux"
    by (simp_all add: walked_def nilledOnly_def)
  from wk show "\<forall>k < length ?aux.
         auxiliaryNodes t' ! k = (if onChain t (int k) then None else ?aux ! k)"
    by (simp add: walked_def onChain_def)
  from wk show "\<exists>k n. k < length ?aux \<and> onChain t (int k) \<and>
         ?aux ! k = Some n \<and> previousAuxIndex n = - 1 \<and>
         previousNodeIndex n \<noteq> - 1 \<and> lastChangedNodeIndex t' = previousNodeIndex n"
    by (simp add: walked_def onChain_def)
  show "\<forall>t''. Fix t' = Inr t'' \<longrightarrow>
         (\<exists>ref. nodes t' ! nat (lastChangedNodeIndex t') = Some ref \<and>
            mem t'' = (mem t')(ref := fst (mock_Next (mem t' ref))))"
    using Fix_advances_the_popped_leaf by blast
next
  let ?aux = "auxiliaryNodes t"
  let ?c = "int (length ?aux) - 1"
  assume a: "Pop t = Some (Inl (p, t'))"
  have "panicked t t'"
  proof (cases "length ?aux = 0")
    case True
    with a have "t' = t" by (simp add: Pop_def)
    then show ?thesis by (simp add: panicked_def nilledOnly_refl)
  next
    case False
    with a obtain n where n: "?aux ! (length ?aux - 1) = Some n"
      and w: "Pop_walk t ?c n = Some (Inl (p, t'))"
      by (auto simp: Pop_def split: if_splits option.splits sum.splits)
    have c: "inRange ?aux ?c" using False by (auto simp: inRange_def)
    have "nat ?c = length ?aux - 1" by simp
    with n have n': "?aux ! nat ?c = Some n" by simp
    from Pop_walk_walkOk[OF w] c n' show ?thesis by (simp add: walkOk_def)
  qed
  then show "mem t' = mem t" "nodes t' = nodes t"
    "lastChangedNodeIndex t' = lastChangedNodeIndex t"
    "length (auxiliaryNodes t') = length ?aux"
    "\<forall>k < length ?aux. auxiliaryNodes t' ! k = ?aux ! k \<or> auxiliaryNodes t' ! k = None"
    by (simp_all add: panicked_def nilledOnly_def)
qed


theorem Pop_only_vacates_the_winner_chain_witness:
  "(Pop S2_tree = Some (Inr (Some 0, S2_popped)) \<and>
      mem S2_popped = mem S2_tree \<and> nodes S2_popped = nodes S2_tree \<and>
      auxiliaryNodes S2_popped ! 0 =
         (if onChain S2_tree (int 0) then None else auxiliaryNodes S2_tree ! 0) \<and>
      auxiliaryNodes S2_popped ! 1 =
         (if onChain S2_tree (int 1) then None else auxiliaryNodes S2_tree ! 1) \<and>
      auxiliaryNodes S2_popped ! 2 =
         (if onChain S2_tree (int 2) then None else auxiliaryNodes S2_tree ! 2) \<and>
      lastChangedNodeIndex S2_popped = 0 \<and>
      Fix S2_popped = Inr S2_fixed \<and>
      mem S2_fixed = (mem S2_popped)(0 := fst (mock_Next (mem S2_popped 0)))) \<and>
   (Pop broken = Some (Inl (IndexOutOfRange, broken)) \<and>
      mem broken = mem broken \<and> nodes broken = nodes broken)"
proof -
  note th = Pop_only_vacates_the_winner_chain[of S2_tree 0 S2_popped IndexOutOfRange]
  from th S2_pop have
    a: "mem S2_popped = mem S2_tree \<and> nodes S2_popped = nodes S2_tree"
    and b: "\<forall>k < length (auxiliaryNodes S2_tree). auxiliaryNodes S2_popped ! k =
         (if onChain S2_tree (int k) then None else auxiliaryNodes S2_tree ! k)"
    and c: "\<forall>t''. Fix S2_popped = Inr t'' \<longrightarrow>
         (\<exists>ref. nodes S2_popped ! nat (lastChangedNodeIndex S2_popped) = Some ref \<and>
            mem t'' = (mem S2_popped)(ref := fst (mock_Next (mem S2_popped ref))))"
    by blast+
  from c S2_fix have "\<exists>ref. nodes S2_popped ! nat (lastChangedNodeIndex S2_popped) = Some ref \<and>
            mem S2_fixed = (mem S2_popped)(ref := fst (mock_Next (mem S2_popped ref)))"
    by blast
  then have d: "mem S2_fixed = (mem S2_popped)(0 := fst (mock_Next (mem S2_popped 0)))"
    by (simp add: S2_popped_def S2_tree_def)
  have e: "lastChangedNodeIndex S2_popped = 0" by (simp add: S2_popped_def)
  have len: "length (auxiliaryNodes S2_tree) = 3" by (simp add: S2_tree_def)
  from Pop_only_vacates_the_winner_chain[of broken 0 broken IndexOutOfRange] broken_pop
  have f: "mem broken = mem broken \<and> nodes broken = nodes broken" by blast
  from b len have b0: "auxiliaryNodes S2_popped ! 0 =
         (if onChain S2_tree (int 0) then None else auxiliaryNodes S2_tree ! 0)"
    and b1: "auxiliaryNodes S2_popped ! 1 =
         (if onChain S2_tree (int 1) then None else auxiliaryNodes S2_tree ! 1)"
    and b2: "auxiliaryNodes S2_popped ! 2 =
         (if onChain S2_tree (int 2) then None else auxiliaryNodes S2_tree ! 2)"
    by simp_all
  from a b0 b1 b2 d e f S2_pop S2_fix broken_pop show ?thesis by blast
qed

end
